theory Spec2Isabelle
  imports Main "HOL-Library.Word" "HOL-Library.Sublist"
begin

section \<open>Errors raised by \<open>lightlab/util/io.py\<close>\<close>

datatype error =
    SweepCompleted      \<comment> \<open>\<open>Exception('This sweep has supposedly completed. ...')\<close>\<close>
  | IndexError
  | FileNotFoundError string
  | FileExistsError string
  | IsADirectoryError string
  | PicklingError
  | UnpicklingError
  | BadGzipFile
  | MatReadError
  | MatWriteError
  | TypeError
  | AttributeError
  | KeyError
  | JSONDecodeError

section \<open>\<open>ProgressWriter\<close>: the sweep progress reporter\<close>

text \<open>
  \<open>self.size = np.array(swpSize)\<close> is a numpy array. For a tuple of Python integers that
  fit in 64 bits numpy chooses the dtype \<open>int64\<close>, so \<open>size\<close>, \<open>currentPnt\<close>
  (\<open>np.zeros_like\<close>) and \<open>totalSize\<close> (\<open>np.prod\<close>) are 64-bit two's complement values
  whose arithmetic wraps around silently. \<open>ofTotal\<close> starts as the Python integer \<open>0\<close>
  and stays an unbounded Python integer.
\<close>

type_synonym int64 = "64 word"

datatype swpSize =
    Scalar int64            \<comment> \<open>\<open>np.isscalar(swpSize)\<close>\<close>
  | Dims "int64 list"       \<comment> \<open>a tuple or list of dimension sizes\<close>

text \<open>What the reporter writes; the text of the messages and the time stamps are left out.\<close>

datatype pw_event =
    PrintUrl | PrintName | PrintDims
  | WriteHtml | WriteStdio | WriteHtmlEnd | WriteStdioEnd

record ProgressWriter =
  name :: string
  size_pw :: "int64 list"
  currentPnt :: "int64 list"
  totalSize :: int64
  ofTotal :: int
  completed :: bool
  serving :: bool
  printing :: bool
  emitted :: "pw_event list"

definition np_prod :: "int64 list \<Rightarrow> int64" where
  "np_prod xs = foldl (\<lambda>acc x. acc * x) 1 xs"

definition zeros_like :: "int64 list \<Rightarrow> int64 list" where
  "zeros_like xs = map (\<lambda>_. 0) xs"

definition init :: "string \<Rightarrow> swpSize \<Rightarrow> bool \<Rightarrow> bool \<Rightarrow> ProgressWriter" where
  "init nm swp runServer stdoutPrint =
     (let sz = (case swp of Scalar x \<Rightarrow> [x] | Dims xs \<Rightarrow> xs) in
      \<lparr> name = nm,
        size_pw = sz,
        currentPnt = zeros_like sz,
        totalSize = np_prod sz,
        ofTotal = 0,
        completed = False,
        serving = runServer,
        printing = stdoutPrint,
        emitted = (if runServer then [PrintUrl, WriteHtml] else [])
                @ (if stdoutPrint then [PrintName, PrintDims, WriteStdio] else []) \<rparr>)"

text \<open>
  The loop of \<open>__updateOneInternal\<close>, from iteration \<open>i\<close> on. The index \<open>-i - 1\<close> counts
  from the end of each array and raises \<open>IndexError\<close> when the array has no more than \<open>i\<close>
  elements. The result is the exception raised, if any, and the state as the loop left it.
\<close>

function updateLoop :: "nat \<Rightarrow> ProgressWriter \<Rightarrow> error option \<times> ProgressWriter" where
  "updateLoop i s =
     (if i < length (size_pw s) then
        (if i < length (currentPnt s) then
           (let jc = length (currentPnt s) - i - 1;
                js = length (size_pw s) - i - 1 in
            if currentPnt s ! jc <s size_pw s ! js - 1
            then (None, s\<lparr>currentPnt := (currentPnt s)[jc := currentPnt s ! jc + 1]\<rparr>)
            else updateLoop (i + 1) (s\<lparr>currentPnt := (currentPnt s)[jc := 0]\<rparr>))
         else (Some IndexError, s))
      else (None, s))"
  by pat_completeness auto
termination
  by (relation "measure (\<lambda>(i, s). length (size_pw s) - i)") auto

declare updateLoop.simps [simp del]

definition updateOneInternal :: "ProgressWriter \<Rightarrow> error option \<times> ProgressWriter" where
  "updateOneInternal s =
     (case updateLoop 0 s of
        (Some e, s1) \<Rightarrow> (Some e, s1)
      | (None, s1) \<Rightarrow>
          (let s2 = s1\<lparr>ofTotal := ofTotal s1 + 1\<rparr> in
           (None, if ofTotal s2 = sint (totalSize s2) then s2\<lparr>completed := True\<rparr> else s2)))"

text \<open>\<open>for i in range(steps): self.__updateOneInternal()\<close>, stopping at the first exception.\<close>

fun repeatInternal :: "nat \<Rightarrow> ProgressWriter \<Rightarrow> error option \<times> ProgressWriter" where
  "repeatInternal 0 s = (None, s)"
| "repeatInternal (Suc n) s =
     (case updateOneInternal s of
        (Some e, s1) \<Rightarrow> (Some e, s1)
      | (None, s1) \<Rightarrow> repeatInternal n s1)"

definition update :: "int \<Rightarrow> ProgressWriter \<Rightarrow> error option \<times> ProgressWriter" where
  "update steps s =
     (if completed s then (Some SweepCompleted, s)
      else (case repeatInternal (nat steps) s of
              (Some e, s1) \<Rightarrow> (Some e, s1)
            | (None, s1) \<Rightarrow>
                (None, s1\<lparr>emitted := emitted s1 @
                   (if \<not> completed s1
                    then (if serving s1 then [WriteHtml] else [])
                       @ (if printing s1 then [WriteStdio] else [])
                    else (if serving s1 then [WriteHtmlEnd] else [])
                       @ (if printing s1 then [WriteStdioEnd] else []))\<rparr>)))"

text \<open>\<open>n\<close> successive calls \<open>update()\<close> with the default \<open>steps=1\<close>; an exception ends the run.\<close>

fun updateCalls :: "nat \<Rightarrow> ProgressWriter \<Rightarrow> error option \<times> ProgressWriter" where
  "updateCalls 0 s = (None, s)"
| "updateCalls (Suc n) s =
     (case update 1 s of
        (Some e, s1) \<Rightarrow> (Some e, s1)
      | (None, s1) \<Rightarrow> updateCalls n s1)"

subsection \<open>The counter as an odometer\<close>

text \<open>
  One increment of the counter on the reversed arrays (fastest-varying dimension first):
  the loop of \<open>__updateOneInternal\<close> is shown below to compute exactly this.
\<close>

fun odo :: "int64 list \<Rightarrow> int64 list \<Rightarrow> int64 list" where
  "odo [] zs = []"
| "odo (c # cs) [] = c # cs"
| "odo (c # cs) (z # zs) = (if c <s z - 1 then (c + 1) # cs else 0 # odo cs zs)"

text \<open>The bound \<open>0 <= currentPnt[i] <= size[i] - 1\<close>, read on the integer values.\<close>

definition inRange :: "int64 \<Rightarrow> int64 \<Rightarrow> bool" where
  "inRange c z = (0 \<le> sint c \<and> sint c \<le> sint z - 1)"

definition counterInv :: "ProgressWriter \<Rightarrow> bool" where
  "counterInv s =
     (length (currentPnt s) = length (size_pw s) \<and>
      (\<forall>i < length (size_pw s).
         0 \<le> sint (currentPnt s ! i) \<and> sint (currentPnt s ! i) \<le> sint (size_pw s ! i) - 1))"

text \<open>
  The mixed-radix representation of \<open>k\<close> in the given bases, last base least significant,
  and the number that a list of digits stands for in those bases.
\<close>

fun mixed_radix_rev :: "int list \<Rightarrow> int \<Rightarrow> int list" where
  "mixed_radix_rev [] k = []"
| "mixed_radix_rev (b # bs) k = (k mod b) # mixed_radix_rev bs (k div b)"

definition mixed_radix :: "int list \<Rightarrow> int \<Rightarrow> int list" where
  "mixed_radix bases k = rev (mixed_radix_rev (rev bases) k)"

fun mr_value_rev :: "int list \<Rightarrow> int list \<Rightarrow> int" where
  "mr_value_rev (b # bs) (d # ds) = d + b * mr_value_rev bs ds"
| "mr_value_rev bs ds = 0"

definition mr_value :: "int list \<Rightarrow> int list \<Rightarrow> int" where
  "mr_value bases digits = mr_value_rev (rev bases) (rev digits)"

section \<open>File functions\<close>

subsection \<open>Paths, the file system and the libraries\<close>

text \<open>
  A path is the string \<open>str(path)\<close>. A file holds bytes. The file system has regular files
  and directories, both keyed by the resolved path; it also records, in order, the calls
  made on it, with the path each call was given. Permissions are not modelled: a call
  fails only for a missing file, a missing parent directory, or a directory or file in the
  way.
\<close>

type_synonym path = string
type_synonym bytes = "8 word list"

datatype fs_call =
    Makedirs path | Touch path | Exists path | OpenWrite path | OpenRead path

record world =
  fileDir :: path                    \<comment> \<open>the module global \<open>fileDir\<close>\<close>
  files :: "path \<rightharpoonup> bytes"
  dirs :: "path set"
  calls :: "fs_call list"

text \<open>
  The functions of \<open>pathlib\<close>, \<open>pickle\<close>, \<open>gzip\<close>, \<open>scipy.io\<close> and \<open>numpy\<close> that the
  module calls are parameters: \<open>pjoin d f\<close> is \<open>d / f\<close>, \<open>resolve\<close> is \<open>Path.resolve()\<close>
  (not strict, so it does not raise for a missing file), \<open>parent\<close> is \<open>Path.parent\<close>.
  \<open>'v\<close> is the type of pickled values and \<open>'m\<close> the type of matrices.
\<close>

record ('v, 'm) lib =
  pjoin :: "path \<Rightarrow> string \<Rightarrow> path"
  resolve :: "path \<Rightarrow> path"
  parent :: "path \<Rightarrow> path"
  pickle_dumps :: "'v \<Rightarrow> error + bytes"
  pickle_loads :: "bytes \<Rightarrow> error + 'v"
  gzip_compress :: "bytes \<Rightarrow> bytes"
  gzip_decompress :: "bytes \<Rightarrow> error + bytes"
  savemat_bytes :: "(string \<times> 'm) list \<Rightarrow> error + bytes"
  loadmat_bytes :: "bytes \<Rightarrow> error + (string \<times> 'm) list"
  np_squeeze :: "'m \<Rightarrow> 'm"

definition log_call :: "fs_call \<Rightarrow> world \<Rightarrow> world" where
  "log_call c w = w\<lparr>calls := calls w @ [c]\<rparr>"

text \<open>\<open>os.makedirs(d, mode=0o775, exist_ok=True)\<close>\<close>

definition os_makedirs :: "('v, 'm) lib \<Rightarrow> path \<Rightarrow> world \<Rightarrow> (error + unit) \<times> world" where
  "os_makedirs L d w =
     (let w1 = log_call (Makedirs d) w in
      if resolve L d \<in> dom (files w1) then (Inl (FileExistsError d), w1)
      else (Inr (), w1\<lparr>dirs := insert (resolve L d) (dirs w1)\<rparr>))"

text \<open>\<open>Path.exists()\<close>\<close>

definition path_exists :: "('v, 'm) lib \<Rightarrow> path \<Rightarrow> world \<Rightarrow> bool \<times> world" where
  "path_exists L p w =
     (resolve L p \<in> dom (files w) \<or> resolve L p \<in> dirs w, log_call (Exists p) w)"

text \<open>\<open>Path.touch()\<close>: creates an empty file unless something is there already.\<close>

definition touch :: "('v, 'm) lib \<Rightarrow> path \<Rightarrow> world \<Rightarrow> (error + unit) \<times> world" where
  "touch L p w =
     (let w1 = log_call (Touch p) w in
      if resolve L p \<in> dom (files w1) \<or> resolve L p \<in> dirs w1 then (Inr (), w1)
      else if resolve L (parent L p) \<in> dirs w1
      then (Inr (), w1\<lparr>files := (files w1)(resolve L p \<mapsto> [])\<rparr>)
      else (Inl (FileNotFoundError p), w1))"

text \<open>Opening a file for writing truncates it; the bytes are written afterwards.\<close>

definition open_wb :: "('v, 'm) lib \<Rightarrow> path \<Rightarrow> world \<Rightarrow> (error + unit) \<times> world" where
  "open_wb L p w =
     (let w1 = log_call (OpenWrite p) w in
      if resolve L p \<in> dirs w1 then (Inl (IsADirectoryError p), w1)
      else if resolve L p \<in> dom (files w1) \<or> resolve L (parent L p) \<in> dirs w1
      then (Inr (), w1\<lparr>files := (files w1)(resolve L p \<mapsto> [])\<rparr>)
      else (Inl (FileNotFoundError p), w1))"

definition write_bytes :: "('v, 'm) lib \<Rightarrow> path \<Rightarrow> bytes \<Rightarrow> world \<Rightarrow> world" where
  "write_bytes L p b w = w\<lparr>files := (files w)(resolve L p \<mapsto> b)\<rparr>"

text \<open>Opening a file for reading and reading all of it.\<close>

definition open_rb :: "('v, 'm) lib \<Rightarrow> path \<Rightarrow> world \<Rightarrow> (error + bytes) \<times> world" where
  "open_rb L p w =
     (let w1 = log_call (OpenRead p) w in
      if resolve L p \<in> dirs w1 then (Inl (IsADirectoryError p), w1)
      else (case files w1 (resolve L p) of
              None \<Rightarrow> (Inl (FileNotFoundError p), w1)
            | Some b \<Rightarrow> (Inr b, w1)))"

text \<open>\<open>s.endswith(suf)\<close> and the slice \<open>s[-n:]\<close> of Python strings.\<close>

definition endswith :: "string \<Rightarrow> string \<Rightarrow> bool" where
  "endswith s suf = (length suf \<le> length s \<and> drop (length s - length suf) s = suf)"

definition last_chars :: "nat \<Rightarrow> string \<Rightarrow> string" where
  "last_chars n s = drop (length s - n) s"

subsection \<open>The functions of the module\<close>

definition makeFileExist :: "('v, 'm) lib \<Rightarrow> string \<Rightarrow> world \<Rightarrow> (error + path) \<times> world" where
  "makeFileExist L filename w =
     (let p = pjoin L (fileDir w) filename in
      case os_makedirs L (fileDir w) w of
        (Inl e, w1) \<Rightarrow> (Inl e, w1)
      | (Inr _, w1) \<Rightarrow>
          (case touch L p w1 of
             (Inl e, w2) \<Rightarrow> (Inl e, w2)
           | (Inr _, w2) \<Rightarrow> (Inr (resolve L p), w2)))"

definition savePickle :: "('v, 'm) lib \<Rightarrow> string \<Rightarrow> 'v \<Rightarrow> world \<Rightarrow> (error + unit) \<times> world" where
  "savePickle L filename dataTuple w =
     (case makeFileExist L filename w of
        (Inl e, w1) \<Rightarrow> (Inl e, w1)
      | (Inr rp, w1) \<Rightarrow>
          (case open_wb L rp w1 of
             (Inl e, w2) \<Rightarrow> (Inl e, w2)
           | (Inr _, w2) \<Rightarrow>
               (case pickle_dumps L dataTuple of
                  Inl e \<Rightarrow> (Inl e, w2)
                | Inr b \<Rightarrow> (Inr (), write_bytes L rp b w2))))"

definition loadPickle :: "('v, 'm) lib \<Rightarrow> string \<Rightarrow> world \<Rightarrow> (error + 'v) \<times> world" where
  "loadPickle L filename w =
     (let p = pjoin L (fileDir w) filename;
          rp = resolve L p in
      case open_rb L rp w of
        (Inl e, w1) \<Rightarrow> (Inl e, w1)
      | (Inr b, w1) \<Rightarrow> (pickle_loads L b, w1))"

definition gzfilename :: "string \<Rightarrow> string" where
  "gzfilename filename =
     (let fname = filename in
      if endswith fname ''.gz'' then fname else fname @ ''.gz'')"

definition loadPickleGzip :: "('v, 'm) lib \<Rightarrow> string \<Rightarrow> world \<Rightarrow> (error + 'v) \<times> world" where
  "loadPickleGzip L filename w =
     (let p = pjoin L (fileDir w) (gzfilename filename);
          rp = resolve L p in
      case open_rb L rp w of
        (Inl e, w1) \<Rightarrow> (Inl e, w1)
      | (Inr z, w1) \<Rightarrow>
          (case gzip_decompress L z of
             Inl e \<Rightarrow> (Inl e, w1)
           | Inr b \<Rightarrow> (pickle_loads L b, w1)))"

definition savePickleGzip :: "('v, 'm) lib \<Rightarrow> string \<Rightarrow> 'v \<Rightarrow> world \<Rightarrow> (error + unit) \<times> world" where
  "savePickleGzip L filename dataTuple w =
     (case makeFileExist L (gzfilename filename) w of
        (Inl e, w1) \<Rightarrow> (Inl e, w1)
      | (Inr rp, w1) \<Rightarrow>
          (case open_wb L rp w1 of
             (Inl e, w2) \<Rightarrow> (Inl e, w2)
           | (Inr _, w2) \<Rightarrow>
               (case pickle_dumps L dataTuple of
                  Inl e \<Rightarrow> (Inl e, w2)
                | Inr b \<Rightarrow> (Inr (), write_bytes L rp (gzip_compress L b) w2))))"

text \<open>
  \<open>sio.savemat(str(rp), dataDict)\<close> and \<open>sio.loadmat(str(rp))\<close> are given the path \<open>rp\<close>;
  what scipy does with a name that does not end in \<open>.mat\<close> is not modelled.
\<close>

definition saveMat ::
  "('v, 'm) lib \<Rightarrow> string \<Rightarrow> (string \<times> 'm) list \<Rightarrow> world \<Rightarrow> (error + unit) \<times> world" where
  "saveMat L filename0 dataDict w =
     (let filename = (if last_chars 4 filename0 \<noteq> ''.mat'' then filename0 @ ''.mat''
                      else filename0) in
      case makeFileExist L filename w of
        (Inl e, w1) \<Rightarrow> (Inl e, w1)
      | (Inr rp, w1) \<Rightarrow>
          (case open_wb L rp w1 of
             (Inl e, w2) \<Rightarrow> (Inl e, w2)
           | (Inr _, w2) \<Rightarrow>
               (case savemat_bytes L dataDict of
                  Inl e \<Rightarrow> (Inl e, w2)
                | Inr b \<Rightarrow> (Inr (), write_bytes L rp b w2))))"

definition loadMat ::
  "('v, 'm) lib \<Rightarrow> string \<Rightarrow> world \<Rightarrow> (error + (string \<times> 'm) list) \<times> world" where
  "loadMat L filename0 w =
     (let filename = (if last_chars 4 filename0 \<noteq> ''.mat'' then filename0 @ ''.mat''
                      else filename0);
          p = pjoin L (fileDir w) filename;
          rp = resolve L p in
      case path_exists L p w of
        (False, w1) \<Rightarrow> (Inl (FileNotFoundError p), w1)
      | (True, w1) \<Rightarrow>
          (case open_rb L rp w1 of
             (Inl e, w2) \<Rightarrow> (Inl e, w2)
           | (Inr b, w2) \<Rightarrow>
               (case loadmat_bytes L b of
                  Inl e \<Rightarrow> (Inl e, w2)
                | Inr data \<Rightarrow> (Inr (map (\<lambda>(k, v). (k, np_squeeze L v)) data), w2))))"

text \<open>The calls a function added to the record of the file system.\<close>

definition new_calls :: "world \<Rightarrow> world \<Rightarrow> fs_call list" where
  "new_calls w w' = drop (length (calls w)) (calls w')"

text \<open>The name a Mat file is stored under, as the claim words it.\<close>

definition mat_name :: "string \<Rightarrow> string" where
  "mat_name filename = (if endswith filename ''.mat'' then filename else filename @ ''.mat'')"

text \<open>
  A library for the examples: \<open>d / f\<close> joins with a slash (and is \<open>d\<close> for an empty \<open>f\<close>),
  paths are already resolved, the parent is the path up to the last slash, and pickling
  and compression store the value as it is.
\<close>

definition example_lib :: "(bytes, bytes) lib" where
  "example_lib =
     \<lparr> pjoin = (\<lambda>d f. if f = [] then d else d @ ''/'' @ f),
       resolve = (\<lambda>p. p),
       parent = (\<lambda>p. rev (drop 1 (dropWhile (\<lambda>c. c \<noteq> CHR ''/'') (rev p)))),
       pickle_dumps = Inr,
       pickle_loads = Inr,
       gzip_compress = (\<lambda>b. b),
       gzip_decompress = Inr,
       savemat_bytes = (\<lambda>d. Inr (concat (map snd d))),
       loadmat_bytes = (\<lambda>b. Inr [(''x'', b)]),
       np_squeeze = (\<lambda>m. m) \<rparr>"

definition example_world :: world where
  "example_world = \<lparr> fileDir = ''/data'', files = Map.empty, dirs = {''/''}, calls = [] \<rparr>"

section \<open>\<open>JSONpickleable\<close>\<close>

subsection \<open>Python values and dictionaries\<close>

text \<open>
  The keys of an attribute dictionary are strings, but a state dictionary may hold other
  hashable keys, which \<open>__getstate__\<close> guards against with \<open>isinstance(key, str)\<close>;
  integers stand for them. Of a value the module looks at its class and the classes of
  its MRO (by name), at whether it is a \<open>HardwareReference\<close>, and at whether it is a
  function and a module-level one. A value can itself be a class. \<open>Dilled v\<close> is the byte
  string that \<open>dill.loads\<close> turns into \<open>v\<close>; \<open>RawBytes\<close> are bytes that are no pickle.
\<close>

datatype key = StrKey string | IntKey int

datatype pyval =
    PyNone
  | HardwareReference string      \<comment> \<open>the placeholder, with its \<open>klassname\<close>\<close>
  | Instance "string list" nat    \<comment> \<open>the class names of the MRO, own class first; an identity\<close>
  | Function nat bool             \<comment> \<open>an identity; whether it is a module-level function\<close>
  | ClassValue string             \<comment> \<open>a class (of metaclass \<open>type\<close>), with its name\<close>
  | Dilled pyval
  | RawBytes nat

type_synonym pydict = "(key \<times> pyval) list"

text \<open>\<open>d[k] = v\<close> keeps the place of an existing key and appends a new one.\<close>

fun dict_set :: "key \<Rightarrow> pyval \<Rightarrow> pydict \<Rightarrow> pydict" where
  "dict_set k v [] = [(k, v)]"
| "dict_set k v ((k', v') # d) = (if k' = k then (k, v) # d else (k', v') # dict_set k v d)"

text \<open>\<open>del d[k]\<close> raises \<open>KeyError\<close> for a missing key.\<close>

definition dict_del :: "key \<Rightarrow> pydict \<Rightarrow> error + pydict" where
  "dict_del k d =
     (if k \<in> fst ` set d then Inr (filter (\<lambda>(k', v). k' \<noteq> k) d) else Inl KeyError)"

text \<open>\<open>setattr(obj, name, v)\<close> and \<open>delattr(obj, name)\<close> on the attribute dictionary.\<close>

definition setattr :: "key \<Rightarrow> pyval \<Rightarrow> pydict \<Rightarrow> error + pydict" where
  "setattr k v d = (case k of StrKey s \<Rightarrow> Inr (dict_set k v d) | IntKey i \<Rightarrow> Inl TypeError)"

definition delattr :: "key \<Rightarrow> pydict \<Rightarrow> error + pydict" where
  "delattr k d =
     (case k of
        StrKey s \<Rightarrow> (if k \<in> fst ` set d then Inr (filter (\<lambda>(k', v). k' \<noteq> k) d)
                     else Inl AttributeError)
      | IntKey i \<Rightarrow> Inl TypeError)"

fun class_name :: "pyval \<Rightarrow> string" where
  "class_name PyNone = ''NoneType''"
| "class_name (HardwareReference c) = ''HardwareReference''"
| "class_name (Instance [] n) = ''object''"
| "class_name (Instance (c # cs) n) = c"
| "class_name (Function n m) = ''function''"
| "class_name (ClassValue c) = ''type''"
| "class_name (Dilled v) = ''bytes''"
| "class_name (RawBytes n) = ''bytes''"

text \<open>
  \<open>val.__class__.mro()\<close>, as names. For a value that is a class, \<open>val.__class__\<close> is
  \<open>type\<close>, and \<open>type.mro()\<close> without an argument raises \<open>TypeError\<close>.
\<close>

fun mro_call :: "pyval \<Rightarrow> error + string list" where
  "mro_call PyNone = Inr [''NoneType'', ''object'']"
| "mro_call (HardwareReference c) = Inr [''HardwareReference'', ''object'']"
| "mro_call (Instance cs n) = Inr cs"
| "mro_call (Function n m) = Inr [''function'', ''object'']"
| "mro_call (ClassValue c) = Inl TypeError"
| "mro_call (Dilled v) = Inr [''bytes'', ''object'']"
| "mro_call (RawBytes n) = Inr [''bytes'', ''object'']"

fun isHardwareReference :: "pyval \<Rightarrow> bool" where
  "isHardwareReference (HardwareReference c) = True"
| "isHardwareReference v = False"

text \<open>
  \<open>jsonpickle.util.is_function\<close>, \<open>jsonpickle.util.is_module_function\<close> and \<open>dill.loads\<close>.
  \<open>dill.dumps\<close>, which can raise, is a parameter of \<open>__getstate__\<close> below.
\<close>

fun is_function :: "pyval \<Rightarrow> bool" where
  "is_function (Function n m) = True"
| "is_function v = False"

fun is_module_function :: "pyval \<Rightarrow> bool" where
  "is_module_function (Function n m) = m"
| "is_module_function v = False"

fun dill_loads :: "pyval \<Rightarrow> error + pyval" where
  "dill_loads (Dilled v) = Inr v"
| "dill_loads (RawBytes n) = Inl UnpicklingError"
| "dill_loads v = Inl TypeError"

subsection \<open>\<open>__getstate__\<close>\<close>

text \<open>
  Dictionaries are objects: \<open>__getstate__\<close> changes the dictionary that the inherited
  \<open>__getstate__\<close> returns, in place. The heap maps the address of a dictionary to its
  entries.
\<close>

type_synonym addr = nat

record heap =
  dict_at :: "addr \<Rightarrow> pydict"
  next_free :: addr

text \<open>
  Modelled from the spec: \<open>Hashable.__getstate__\<close> of \<open>lightlab.laboratory\<close>, which is not
  among the sources. By the docstring of \<open>JSONpickleable\<close> (attributes beginning with
  \<open>__\<close> are stripped automatically, and have already been removed when its own loop runs)
  it returns a dictionary of its own with the attributes of the instance whose names do
  not begin with \<open>__\<close>.
\<close>

definition dunder :: "key \<Rightarrow> bool" where
  "dunder k = (case k of StrKey s \<Rightarrow> take 2 s = ''__'' | IntKey i \<Rightarrow> False)"

definition hashable_getstate :: "addr \<Rightarrow> heap \<Rightarrow> addr \<times> heap" where
  "hashable_getstate self h =
     (next_free h,
      h\<lparr>dict_at := (dict_at h)(next_free h := filter (\<lambda>(k, v). \<not> dunder k) (dict_at h self)),
        next_free := next_free h + 1\<rparr>)"

text \<open>
  \<open>allNotPickled\<close>: \<open>self.notPickled\<close> joined with \<open>base.notPickled\<close> for every class of the
  MRO; \<open>None\<close> stands for a class without that attribute (\<open>AttributeError\<close>, passed over).
\<close>

fun allNotPickled :: "key set \<Rightarrow> key set option list \<Rightarrow> key set" where
  "allNotPickled acc [] = acc"
| "allNotPickled acc (None # bases) = allNotPickled acc bases"
| "allNotPickled acc (Some theirNotPickled # bases) = allNotPickled (acc \<union> theirNotPickled) bases"

text \<open>
  The test of the second branch: the name of the class is compared first, and only when
  it differs is the MRO asked for.
\<close>

definition is_VISAObject :: "pyval \<Rightarrow> error + bool" where
  "is_VISAObject val =
     (if class_name val = ''VISAObject'' then Inr True
      else (case mro_call val of
              Inl e \<Rightarrow> Inl e
            | Inr bases \<Rightarrow> Inr (list_ex (\<lambda>base. base = ''VISAObject'') bases)))"

text \<open>
  The body of the loop over \<open>state.copy().items()\<close> for one item: from the state and
  \<open>keys_to_delete\<close> to the exception raised or the two as the item leaves them. \<open>dumps\<close>
  is \<open>dill.dumps\<close>.
\<close>

definition getstate_item ::
  "(pyval \<Rightarrow> error + pyval) \<Rightarrow> key set \<Rightarrow> key \<Rightarrow> pyval \<Rightarrow> pydict \<Rightarrow> key list
     \<Rightarrow> error + pydict \<times> key list" where
  "getstate_item dumps np key val state dels =
     (case key of
        IntKey i \<Rightarrow> Inr (state, dels)
      | StrKey k \<Rightarrow>
          (if key \<in> np then Inr (state, List.insert key dels)
           else (case is_VISAObject val of
                   Inl e \<Rightarrow> Inl e
                 | Inr True \<Rightarrow>
                     Inr (dict_set key (HardwareReference (''Reference to a '' @ class_name val))
                            state, dels)
                 | Inr False \<Rightarrow>
                     (if is_function val \<and> \<not> is_module_function val
                      then (case dumps val of
                              Inl e \<Rightarrow> Inl e
                            | Inr b \<Rightarrow>
                                Inr (dict_set (StrKey (k @ ''_dilled'')) b state,
                                     List.insert key dels))
                      else Inr (state, dels)))))"

text \<open>
  The loop: the items still to visit, the state and \<open>keys_to_delete\<close>. The result is the
  exception raised, if any, with the state and the keys as the loop left them.
\<close>

fun getstate_loop ::
  "(pyval \<Rightarrow> error + pyval) \<Rightarrow> key set \<Rightarrow> (key \<times> pyval) list \<Rightarrow> pydict \<Rightarrow> key list
     \<Rightarrow> error option \<times> pydict \<times> key list" where
  "getstate_loop dumps np [] state dels = (None, state, dels)"
| "getstate_loop dumps np ((key, val) # items) state dels =
     (case getstate_item dumps np key val state dels of
        Inl e \<Rightarrow> (Some e, state, dels)
      | Inr (state', dels') \<Rightarrow> getstate_loop dumps np items state' dels')"

text \<open>
  The items at which the body of the loop raises: a string key outside \<open>notPickled\<close> whose
  value is a class, or is a function that is not module-level and that \<open>dill.dumps\<close> fails
  on.
\<close>

definition item_can_raise :: "(pyval \<Rightarrow> error + pyval) \<Rightarrow> key set \<Rightarrow> key \<times> pyval \<Rightarrow> bool" where
  "item_can_raise dumps np item =
     (case item of
        (IntKey i, val) \<Rightarrow> False
      | (StrKey k, val) \<Rightarrow>
          StrKey k \<notin> np \<and>
          (case is_VISAObject val of
             Inl e \<Rightarrow> True
           | Inr True \<Rightarrow> False
           | Inr False \<Rightarrow>
               is_function val \<and> \<not> is_module_function val \<and> isl (dumps val)))"

text \<open>\<open>for key in keys_to_delete: del state[key]\<close>, with the state as an exception leaves it.\<close>

fun delete_keys :: "key list \<Rightarrow> pydict \<Rightarrow> error option \<times> pydict" where
  "delete_keys [] state = (None, state)"
| "delete_keys (k # ks) state =
     (case dict_del k state of
        Inl e \<Rightarrow> (Some e, state)
      | Inr state' \<Rightarrow> delete_keys ks state')"

text \<open>
  \<open>getstate dumps super self_notPickled mro_notPickled self h\<close>: \<open>super\<close> is the inherited
  \<open>__getstate__\<close>, \<open>self\<close> the address of the attribute dictionary of the instance. The
  result is the address of the returned state, or the exception, and the heap.
\<close>

definition getstate ::
  "(pyval \<Rightarrow> error + pyval) \<Rightarrow> (addr \<Rightarrow> heap \<Rightarrow> addr \<times> heap) \<Rightarrow> key set
     \<Rightarrow> key set option list \<Rightarrow> addr \<Rightarrow> heap \<Rightarrow> (error + addr) \<times> heap" where
  "getstate dumps super self_notPickled mro_notPickled self h =
     (case super self h of (st, h1) \<Rightarrow>
        (case getstate_loop dumps (allNotPickled self_notPickled mro_notPickled)
                (dict_at h1 st) (dict_at h1 st) [] of
           (Some e, state, dels) \<Rightarrow> (Inl e, h1\<lparr>dict_at := (dict_at h1)(st := state)\<rparr>)
         | (None, state, dels) \<Rightarrow>
             (case delete_keys dels state of
                (Some e, state') \<Rightarrow> (Inl e, h1\<lparr>dict_at := (dict_at h1)(st := state')\<rparr>)
              | (None, state') \<Rightarrow> (Inr st, h1\<lparr>dict_at := (dict_at h1)(st := state')\<rparr>))))"

text \<open>A \<open>dill.dumps\<close> for the examples: it pickles functions and nothing else.\<close>

fun example_dumps :: "pyval \<Rightarrow> error + pyval" where
  "example_dumps (Function n m) = Inr (Dilled (Function n m))"
| "example_dumps v = Inl PicklingError"

subsection \<open>\<open>__setstate__\<close> and \<open>_fromJSONcheck\<close>\<close>

text \<open>The first loop of \<open>__setstate__\<close>, over \<open>state.copy().items()\<close>.\<close>

fun setstate_loop :: "(key \<times> pyval) list \<Rightarrow> pydict \<Rightarrow> error + pydict" where
  "setstate_loop [] state = Inr state"
| "setstate_loop ((key, val) # items) state =
     (if isHardwareReference val then setstate_loop items (dict_set key PyNone state)
      else (case key of
              IntKey i \<Rightarrow> Inl TypeError
            | StrKey k \<Rightarrow>
                (if last_chars 7 k = ''_dilled''
                 then (case dill_loads val of
                         Inl e \<Rightarrow> Inl e
                       | Inr f \<Rightarrow>
                           (case dict_del key (dict_set (StrKey (take (length k - 7) k)) f state) of
                              Inl e \<Rightarrow> Inl e
                            | Inr state' \<Rightarrow> setstate_loop items state'))
                 else setstate_loop items state)))"

text \<open>\<open>for a in self.notPickled: state[a] = None\<close>\<close>

fun set_none :: "key list \<Rightarrow> pydict \<Rightarrow> pydict" where
  "set_none [] state = state"
| "set_none (a # as) state = set_none as (dict_set a PyNone state)"

text \<open>
  \<open>setstate super notPickled state\<close>: \<open>super\<close> is the inherited \<open>__setstate__\<close>, which is
  handed the state and gives the attribute dictionary of the instance.
\<close>

definition setstate :: "(pydict \<Rightarrow> pydict) \<Rightarrow> key list \<Rightarrow> pydict \<Rightarrow> error + pydict" where
  "setstate super notPickled state =
     (case setstate_loop state state of
        Inl e \<Rightarrow> Inl e
      | Inr state1 \<Rightarrow> Inr (super (set_none notPickled state1)))"

text \<open>What the unpickler restores: the name of the class, whether it is an instance of \<open>cls\<close>,
  and the attributes.\<close>

record pyobj =
  type_name :: string
  isinstance_cls :: bool
  attrs :: pydict

text \<open>\<open>for a in cls.notPickled: setattr(restored_object, a, None)\<close>\<close>

fun setattr_none :: "key list \<Rightarrow> pydict \<Rightarrow> error + pydict" where
  "setattr_none [] d = Inr d"
| "setattr_none (a # as) d =
     (case setattr a PyNone d of Inl e \<Rightarrow> Inl e | Inr d' \<Rightarrow> setattr_none as d')"

text \<open>The last loop of \<open>_fromJSONcheck\<close>, over \<open>restored_object.__dict__.copy().items()\<close>.\<close>

fun fromJSON_loop :: "(key \<times> pyval) list \<Rightarrow> pydict \<Rightarrow> error + pydict" where
  "fromJSON_loop [] d = Inr d"
| "fromJSON_loop ((key, val) # items) d =
     (if isHardwareReference val
      then (case setattr key PyNone d of Inl e \<Rightarrow> Inl e | Inr d' \<Rightarrow> fromJSON_loop items d')
      else (case key of
              IntKey i \<Rightarrow> Inl TypeError
            | StrKey k \<Rightarrow>
                (if last_chars 7 k = ''_dilled''
                 then (case dill_loads val of
                         Inl e \<Rightarrow> Inl e
                       | Inr f \<Rightarrow>
                           (case setattr (StrKey (take (length k - 7) k)) f d of
                              Inl e \<Rightarrow> Inl e
                            | Inr d1 \<Rightarrow>
                                (case delattr key d1 of
                                   Inl e \<Rightarrow> Inl e
                                 | Inr d2 \<Rightarrow> fromJSON_loop items d2)))
                 else fromJSON_loop items d)))"

text \<open>
  \<open>fromJSONcheck restore cls_name cls_notPickled json_string\<close>: \<open>restore\<close> stands for
  \<open>jsonpickle.json.decode\<close> followed by \<open>Unpickler.restore\<close>.
\<close>

definition fromJSONcheck ::
  "(string \<Rightarrow> error + pyobj) \<Rightarrow> string \<Rightarrow> key list \<Rightarrow> string \<Rightarrow> error + pyobj" where
  "fromJSONcheck restore cls_name cls_notPickled json_string =
     (case restore json_string of
        Inl e \<Rightarrow> Inl e
      | Inr restored_object \<Rightarrow>
          (if \<not> isinstance_cls restored_object \<and> type_name restored_object \<noteq> cls_name
           then Inl TypeError
           else (case setattr_none cls_notPickled (attrs restored_object) of
                   Inl e \<Rightarrow> Inl e
                 | Inr d \<Rightarrow>
                     (case fromJSON_loop d d of
                        Inl e \<Rightarrow> Inl e
                      | Inr d' \<Rightarrow> Inr (restored_object\<lparr>attrs := d'\<rparr>)))))"

text \<open>
  \<open>dilled_target key val\<close>: the name and the value that the restore loops put in place of
  the entry \<open>key: val\<close>, when it is an entry \<open>name + '_dilled'\<close> that \<open>dill\<close> can load.
\<close>

definition dilled_target :: "key \<Rightarrow> pyval \<Rightarrow> (key \<times> pyval) option" where
  "dilled_target key val =
     (case key of
        IntKey i \<Rightarrow> None
      | StrKey k \<Rightarrow>
          (if \<not> isHardwareReference val \<and> last_chars 7 k = ''_dilled''
           then (case dill_loads val of
                   Inl e \<Rightarrow> None
                 | Inr f \<Rightarrow> Some (StrKey (take (length k - 7) k), f))
           else None))"

text \<open>
  \<open>dilled_under state k f\<close>: some entry of the state is a dilled value that is restored as
  \<open>f\<close> under the name \<open>k\<close>. \<open>dilled_after state k f\<close>: such an entry comes after the entry of
  \<open>k\<close> itself.
\<close>

definition dilled_under :: "pydict \<Rightarrow> key \<Rightarrow> pyval \<Rightarrow> bool" where
  "dilled_under state k f = list_ex (\<lambda>(key, val). dilled_target key val = Some (k, f)) state"

fun dilled_after :: "pydict \<Rightarrow> key \<Rightarrow> pyval \<Rightarrow> bool" where
  "dilled_after [] k f = False"
| "dilled_after ((key, val) # items) k f =
     (if key = k then dilled_under items k f else dilled_after items k f)"

text \<open>A stored state and an instance for the examples.\<close>

definition example_state :: pydict where
  "example_state =
     [(StrKey ''instr'', HardwareReference ''Reference to a Keithley''),
      (StrKey ''fit_dilled'', Dilled (Function 7 False)),
      (StrKey ''wavelength'', Instance [''float'', ''object''] 3)]"

definition example_instance :: heap where
  "example_instance =
     \<lparr> dict_at = (\<lambda>a. if a = 0
                       then [(StrKey ''wavelength'', Instance [''float'', ''object''] 3),
                             (StrKey ''instr'', Instance [''Keithley'', ''VISAObject'', ''object''] 2),
                             (StrKey ''cache'', PyNone),
                             (StrKey ''log'', Instance [''list'', ''object''] 4),
                             (StrKey ''fit'', Function 7 False)]
                       else []),
       next_free = 1 \<rparr>"

section \<open>Properties of the sweep progress reporter\<close>

subsection \<open>64-bit arithmetic\<close>

lemma sint64_bounds: "- (2 ^ 63) \<le> sint (w::int64)" "sint (w::int64) < 2 ^ 63"
  using sint_ge [of w] sint_lt [of w] by simp_all

lemma foldl_mult_word: "foldl (\<lambda>acc x. acc * x) a xs = a * (word_of_int (prod_list (map sint xs)) :: int64)"
  by (induction xs arbitrary: a) (simp_all add: wi_hom_mult [symmetric] mult.assoc)

lemma np_prod_word_of_int: "np_prod xs = word_of_int (prod_list (map sint xs))"
  by (simp add: np_prod_def foldl_mult_word)

subsection \<open>The loop of \<open>__updateOneInternal\<close> is one odometer increment\<close>

lemma rev_upd_end:
  assumes "i < length xs"
  shows "rev (xs[length xs - Suc i := v]) = take i (rev xs) @ v # drop (Suc i) (rev xs)"
proof -
  have "rev (xs[length xs - Suc i := v]) = (rev xs)[i := v]"
    using assms by (simp add: rev_update)
  also have "\<dots> = take i (rev xs) @ v # drop (Suc i) (rev xs)"
    using assms by (simp add: upd_conv_take_nth_drop)
  finally show ?thesis .
qed

lemma updateLoop_odo:
  "length (currentPnt s) = length (size_pw s) \<Longrightarrow> i \<le> length (size_pw s) \<Longrightarrow>
   updateLoop i s =
     (None, s\<lparr>currentPnt := rev (take i (rev (currentPnt s))
                @ odo (drop i (rev (currentPnt s))) (drop i (rev (size_pw s))))\<rparr>)"
proof (induction i s rule: updateLoop.induct)
  case (1 i s)
  let ?n = "length (size_pw s)"
  let ?c = "currentPnt s" and ?z = "size_pw s"
  show ?case
  proof (cases "i < ?n")
    case False
    with 1(3) have "i = ?n" by simp
    with 1(2) show ?thesis by (subst updateLoop.simps) simp
  next
    case True
    then have ic: "i < length ?c" using 1(2) by simp
    have dc: "drop i (rev ?c) = ?c ! (length ?c - i - 1) # drop (Suc i) (rev ?c)"
      using ic by (simp add: Cons_nth_drop_Suc [symmetric] rev_nth)
    have dz: "drop i (rev ?z) = ?z ! (?n - i - 1) # drop (Suc i) (rev ?z)"
      using True by (simp add: Cons_nth_drop_Suc [symmetric] rev_nth)
    show ?thesis
    proof (cases "?c ! (length ?c - i - 1) <s ?z ! (?n - i - 1) - 1")
      case lt: True
      show ?thesis
        using True ic lt
        by (subst updateLoop.simps) (simp add: dc dz rev_upd_end [symmetric] Let_def)
    next
      case ge: False
      let ?s' = "s\<lparr>currentPnt := ?c[length ?c - i - 1 := 0]\<rparr>"
      have r: "rev (currentPnt ?s') = take i (rev ?c) @ 0 # drop (Suc i) (rev ?c)"
        using ic by (simp add: rev_upd_end)
      have li: "length (take i (rev ?c)) = i" using ic by simp
      have t: "take (i + 1) (rev (currentPnt ?s')) = take i (rev ?c) @ [0]"
        unfolding r using li by (simp add: take_Suc_conv_app_nth)
      have d: "drop (i + 1) (rev (currentPnt ?s')) = drop (Suc i) (rev ?c)"
        unfolding r using li by simp
      have "updateLoop (i + 1) ?s' =
        (None, ?s'\<lparr>currentPnt := rev (take (i + 1) (rev (currentPnt ?s'))
                @ odo (drop (i + 1) (rev (currentPnt ?s'))) (drop (i + 1) (rev (size_pw ?s'))))\<rparr>)"
        using 1(1) [OF True ic refl refl ge] 1(2) True by simp
      then have IH: "updateLoop (i + 1) ?s' =
        (None, s\<lparr>currentPnt := rev ((take i (rev ?c) @ [0])
                @ odo (drop (Suc i) (rev ?c)) (drop (Suc i) (rev ?z)))\<rparr>)"
        unfolding t d by simp
      have step: "updateLoop i s = updateLoop (i + 1) ?s'"
        using True ic ge by (subst updateLoop.simps) (simp add: Let_def)
      have o: "odo (drop i (rev ?c)) (drop i (rev ?z))
                 = 0 # odo (drop (Suc i) (rev ?c)) (drop (Suc i) (rev ?z))"
        unfolding dc dz using ge 1(2) by simp
      show ?thesis
        unfolding step IH o by simp
    qed
  qed
qed


lemma length_odo [simp]: "length (odo cs zs) = length cs"
  by (induction cs zs rule: odo.induct) simp_all

lemma sint_minus_one: "1 \<le>s (z::int64) \<Longrightarrow> sint (z - 1) = sint z - 1"
  using sint64_bounds [of z]
  by (simp add: word_sle_eq sint_word_diff signed_take_bit_int_eq_self)

lemma sint_plus_one: "(c::int64) <s z - 1 \<Longrightarrow> sint (c + 1) = sint c + 1"
  using sint64_bounds [of c] sint64_bounds [of "z - 1"]
  by (simp add: word_sless_alt sint_word_add signed_take_bit_int_eq_self)

lemma odo_inRange:
  "list_all2 inRange cs zs \<Longrightarrow> \<forall>z\<in>set zs. 1 \<le>s z \<Longrightarrow> list_all2 inRange (odo cs zs) zs"
proof (induction cs zs rule: odo.induct)
  case (3 c cs z zs)
  have "sint (c + 1) = sint c + 1" if "c <s z - 1"
    using that by (rule sint_plus_one)
  moreover have "sint (z - 1) = sint z - 1"
    using 3(3) by (simp add: sint_minus_one)
  ultimately show ?case
    using 3 by (auto simp: inRange_def word_sle_eq word_sless_alt)
qed simp_all

lemma counterInv_list_all2:
  "counterInv s \<longleftrightarrow> list_all2 inRange (currentPnt s) (size_pw s)"
  by (auto simp: counterInv_def list_all2_conv_all_nth inRange_def)

lemma updateOneInternal_eq:
  assumes "length (currentPnt s) = length (size_pw s)"
  shows "updateOneInternal s =
    (None, s\<lparr>currentPnt := rev (odo (rev (currentPnt s)) (rev (size_pw s))),
              ofTotal := ofTotal s + 1,
              completed := (ofTotal s + 1 = sint (totalSize s) \<or> completed s)\<rparr>)"
  using updateLoop_odo [OF assms, of 0]
  by (simp add: updateOneInternal_def Let_def)


lemma updateOneInternal_inv:
  assumes "counterInv s" and "\<forall>z\<in>set (size_pw s). 1 \<le>s z"
  shows "counterInv (snd (updateOneInternal s))"
    and "size_pw (snd (updateOneInternal s)) = size_pw s"
    and "fst (updateOneInternal s) = None"
proof -
  have len: "length (currentPnt s) = length (size_pw s)"
    using assms(1) by (simp add: counterInv_def)
  have "list_all2 inRange (rev (currentPnt s)) (rev (size_pw s))"
    using assms(1) by (simp add: counterInv_list_all2)
  then have "list_all2 inRange (odo (rev (currentPnt s)) (rev (size_pw s))) (rev (size_pw s))"
    using assms(2) by (intro odo_inRange) simp_all
  then have "list_all2 inRange (rev (odo (rev (currentPnt s)) (rev (size_pw s)))) (size_pw s)"
    using list_all2_rev [of inRange "odo (rev (currentPnt s)) (rev (size_pw s))" "rev (size_pw s)"]
    by simp
  then show "counterInv (snd (updateOneInternal s))"
    by (simp add: updateOneInternal_eq [OF len] counterInv_list_all2)
  show "size_pw (snd (updateOneInternal s)) = size_pw s"
    by (simp add: updateOneInternal_eq [OF len])
  show "fst (updateOneInternal s) = None"
    by (simp add: updateOneInternal_eq [OF len])
qed

lemma repeatInternal_inv:
  "counterInv s \<Longrightarrow> \<forall>z\<in>set (size_pw s). 1 \<le>s z \<Longrightarrow>
   counterInv (snd (repeatInternal n s)) \<and> size_pw (snd (repeatInternal n s)) = size_pw s
   \<and> fst (repeatInternal n s) = None"
proof (induction n arbitrary: s)
  case 0
  then show ?case by simp
next
  case (Suc n)
  obtain s1 where s1: "updateOneInternal s = (None, s1)"
    using updateOneInternal_inv(3) [OF Suc.prems] by (cases "updateOneInternal s") auto
  have "counterInv s1" "size_pw s1 = size_pw s"
    using updateOneInternal_inv(1,2) [OF Suc.prems] s1 by simp_all
  then show ?case
    using Suc.IH [of s1] Suc.prems(2) s1 by simp
qed

lemma update_inv:
  assumes "counterInv s" and "\<forall>z\<in>set (size_pw s). 1 \<le>s z"
  shows "counterInv (snd (update steps s)) \<and> size_pw (snd (update steps s)) = size_pw s"
proof (cases "completed s")
  case True
  then show ?thesis using assms by (simp add: update_def)
next
  case False
  obtain s1 where s1: "repeatInternal (nat steps) s = (None, s1)"
    using repeatInternal_inv [OF assms, of "nat steps"]
    by (cases "repeatInternal (nat steps) s") auto
  have "counterInv s1" "size_pw s1 = size_pw s"
    using repeatInternal_inv [OF assms, of "nat steps"] s1 by simp_all
  then show ?thesis
    using False s1 by (simp add: update_def counterInv_def)
qed

lemma init_inv: "\<forall>z\<in>set sz. 1 \<le>s z \<Longrightarrow> counterInv (init nm (Dims sz) rs sp)"
proof -
  assume a: "\<forall>z\<in>set sz. 1 \<le>s z"
  have "0 \<le> sint (sz ! i) - 1" if "i < length sz" for i
  proof -
    have "sz ! i \<in> set sz" using that by simp
    with a have "1 \<le>s sz ! i" by blast
    then show ?thesis by (simp add: word_sle_eq)
  qed
  then show ?thesis
    by (simp add: init_def counterInv_def zeros_like_def)
qed

text \<open>
  C5. When every dimension of \<open>swpSize\<close> is at least 1, the counter satisfies
  \<open>0 <= currentPnt[i] <= size[i] - 1\<close> for every dimension \<open>i\<close> after construction, and
  every call \<open>update(steps)\<close> with positive \<open>steps\<close> on a reporter that satisfies it leaves it
  satisfied, whether the call returns or raises.
\<close>

theorem currentPnt_stays_in_range:
  "(\<forall>z\<in>set sz. 1 \<le>s z) \<longrightarrow>
     counterInv (init nm (Dims sz) rs sp) \<and>
     size_pw (init nm (Dims sz) rs sp) = sz \<and>
     (\<forall>s steps. counterInv s \<and> size_pw s = sz \<and> 0 < steps \<longrightarrow>
        counterInv (snd (update steps s)) \<and> size_pw (snd (update steps s)) = sz)"
  using init_inv [of sz nm rs sp] update_inv by (auto simp: init_def)

text \<open>
  C9. On a reporter whose \<open>completed\<close> flag is set, \<open>update(steps)\<close> raises for every
  \<open>steps\<close>, and the reporter is left exactly as it was.
\<close>

theorem update_after_completed:
  "completed s \<Longrightarrow> update steps s = (Some SweepCompleted, s)"
  by (simp add: update_def)


theorem update_after_completed_witness:
  "completed (snd (update 1 (init ''sweep'' (Dims [1]) False False))) \<and>
   update 3 (snd (update 1 (init ''sweep'' (Dims [1]) False False)))
     = (Some SweepCompleted, snd (update 1 (init ''sweep'' (Dims [1]) False False)))"
proof -
  have c: "completed (snd (update 1 (init ''sweep'' (Dims [1]) False False)))"
    by code_simp
  show ?thesis
    using c update_after_completed [OF c, of 3] by simp
qed

theorem currentPnt_stays_in_range_witness:
  "1 \<le>s (2 :: int64) \<and> 1 \<le>s (3 :: int64) \<and>
   counterInv (init ''sweep'' (Dims [2, 3]) True True) \<and>
   (0::int) < 4 \<and>
   counterInv (snd (update 4 (init ''sweep'' (Dims [2, 3]) True True)))"
proof -
  have p: "\<forall>z\<in>set [2, 3 :: int64]. 1 \<le>s z"
    by (simp add: word_sle_eq)
  have sz: "size_pw (init ''sweep'' (Dims [2, 3]) True True) = [2, 3]"
    by (simp add: init_def Let_def)
  show ?thesis
    using p sz currentPnt_stays_in_range [of "[2, 3]" "''sweep''" True True]
    by (simp add: word_sle_eq)
qed

subsection \<open>Odometer order\<close>

lemma succ_no_carry:
  fixes k b :: int
  assumes "0 < b" and "k mod b < b - 1"
  shows "(k + 1) mod b = k mod b + 1" and "(k + 1) div b = k div b"
proof -
  have e: "k + 1 = b * (k div b) + (k mod b + 1)" by simp
  have r: "0 \<le> k mod b + 1" "k mod b + 1 < b"
    using assms pos_mod_sign [of b k] by simp_all
  show "(k + 1) mod b = k mod b + 1"
    using int_mod_pos_eq [OF e r] .
  show "(k + 1) div b = k div b"
    using int_div_pos_eq [OF e r] .
qed

lemma succ_carry:
  fixes k b :: int
  assumes "0 < b" and "\<not> k mod b < b - 1"
  shows "(k + 1) mod b = 0" and "(k + 1) div b = k div b + 1"
proof -
  have "k mod b < b"
    using assms(1) by simp
  with assms(2) have m: "k mod b = b - 1"
    by arith
  have "k = b * (k div b) + (b - 1)"
    using mult_div_mod_eq [of b k] m by simp
  then have "k + 1 = b * (k div b) + b"
    by linarith
  then have e: "k + 1 = b * (k div b + 1) + 0"
    by (simp only: distrib_left mult_1_right add_0_right)
  have r: "(0::int) \<le> 0" "0 < b" using assms by simp_all
  show "(k + 1) mod b = 0"
    using int_mod_pos_eq [OF e r] .
  show "(k + 1) div b = k div b + 1"
    using int_div_pos_eq [OF e r] .
qed

lemma odo_mixed_radix:
  "\<forall>z\<in>set zs. 1 \<le>s z \<Longrightarrow> map sint cs = mixed_radix_rev (map sint zs) k \<Longrightarrow>
   map sint (odo cs zs) = mixed_radix_rev (map sint zs) (k + 1)"
proof (induction cs zs arbitrary: k rule: odo.induct)
  case (3 c cs z zs)
  have z: "0 < sint z" "sint (z - 1) = sint z - 1"
    using 3(2) by (simp_all add: word_sle_eq sint_minus_one)
  have c: "sint c = k mod sint z" and cs: "map sint cs = mixed_radix_rev (map sint zs) (k div sint z)"
    using 3(3) by simp_all
  show ?case
  proof (cases "c <s z - 1")
    case True
    then have "k mod sint z < sint z - 1"
      using c z by (simp add: word_sless_alt)
    then show ?thesis
      using True cs c succ_no_carry [OF z(1)] by (simp add: sint_plus_one [OF True])
  next
    case False
    then have n: "\<not> k mod sint z < sint z - 1"
      using c z by (simp add: word_sless_alt)
    have "map sint (odo cs zs) = mixed_radix_rev (map sint zs) (k div sint z + 1)"
      using 3(1) [OF False _ cs] 3(2) by simp
    then show ?thesis
      using False succ_carry [OF z(1) n] by simp
  qed
next
  case (1 zs)
  then show ?case by (cases zs) simp_all
next
  case (2 c cs)
  then show ?case by simp
qed

lemma mixed_radix_rev_0: "mixed_radix_rev bs 0 = map (\<lambda>_. 0) bs"
  by (induction bs) simp_all

lemma mr_value_rev_mixed_radix:
  "\<forall>b\<in>set bs. 1 \<le> b \<Longrightarrow> 0 \<le> k \<Longrightarrow> k < prod_list bs \<Longrightarrow>
   mr_value_rev bs (mixed_radix_rev bs k) = k"
proof (induction bs arbitrary: k)
  case Nil
  then show ?case by simp
next
  case (Cons b bs)
  have b: "0 < b" using Cons.prems(1) by simp
  have "k div b < prod_list bs"
  proof (rule ccontr)
    assume "\<not> k div b < prod_list bs"
    then have "b * prod_list bs \<le> b * (k div b)"
      using b by (simp add: mult_left_mono)
    also have "\<dots> \<le> k"
      using b pos_mod_sign [of b k] mult_div_mod_eq [of b k] by linarith
    finally show False
      using Cons.prems(3) by simp
  qed
  moreover have "0 \<le> k div b"
    using Cons.prems(2) b by (simp add: pos_imp_zdiv_nonneg_iff)
  ultimately have "mr_value_rev bs (mixed_radix_rev bs (k div b)) = k div b"
    using Cons.IH Cons.prems(1) by simp
  then show ?case by simp
qed


lemma repeatInternal_mixed_radix:
  "length (currentPnt s) = length (size_pw s) \<Longrightarrow> \<forall>z\<in>set (size_pw s). 1 \<le>s z \<Longrightarrow>
   map sint (rev (currentPnt s)) = mixed_radix_rev (map sint (rev (size_pw s))) k \<Longrightarrow>
   fst (repeatInternal n s) = None \<and>
   map sint (rev (currentPnt (snd (repeatInternal n s))))
     = mixed_radix_rev (map sint (rev (size_pw s))) (k + int n) \<and>
   ofTotal (snd (repeatInternal n s)) = ofTotal s + int n"
proof (induction n arbitrary: s k)
  case 0
  then show ?case by simp
next
  case (Suc n)
  let ?s1 = "snd (updateOneInternal s)"
  have u: "updateOneInternal s = (None, ?s1)"
    by (simp add: updateOneInternal_eq [OF Suc.prems(1)])
  have f: "length (currentPnt ?s1) = length (size_pw ?s1)" "size_pw ?s1 = size_pw s"
    "ofTotal ?s1 = ofTotal s + 1"
    "currentPnt ?s1 = rev (odo (rev (currentPnt s)) (rev (size_pw s)))"
    using Suc.prems(1) by (simp_all add: updateOneInternal_eq [OF Suc.prems(1)])
  have "map sint (odo (rev (currentPnt s)) (rev (size_pw s)))
          = mixed_radix_rev (map sint (rev (size_pw s))) (k + 1)"
    using Suc.prems(2,3) by (intro odo_mixed_radix) simp_all
  then have m: "map sint (rev (currentPnt ?s1))
          = mixed_radix_rev (map sint (rev (size_pw ?s1))) (k + 1)"
    using f by simp
  have p: "\<forall>z\<in>set (size_pw ?s1). 1 \<le>s z"
    using f Suc.prems(2) by simp
  have r: "repeatInternal (Suc n) s = repeatInternal n ?s1"
    by (subst repeatInternal.simps, subst u) simp
  show ?case
    unfolding r using Suc.IH [OF f(1) p m] f by (simp add: add.assoc)
qed

subsection \<open>Completion\<close>

lemma sint_word_of_int64: "- (2^63) \<le> x \<Longrightarrow> x < 2^63 \<Longrightarrow> sint (word_of_int x :: int64) = x"
  by (simp add: sint_sbintrunc' signed_take_bit_int_eq_self)

lemma prod_list_pos: "\<forall>b\<in>set bs. (0::int) < b \<Longrightarrow> 0 < prod_list bs"
  by (induction bs) simp_all

lemma sint_np_prod:
  assumes "\<forall>z\<in>set sz. 0 <s z" and "prod_list (map sint sz) < 2 ^ 63"
  shows "sint (np_prod sz) = prod_list (map sint sz)"
proof -
  have "0 < prod_list (map sint sz)"
    using assms(1) by (intro prod_list_pos) (auto simp: word_sless_alt)
  then show ?thesis
    using assms(2) by (simp add: np_prod_word_of_int sint_word_of_int64)
qed

lemma update_1_eq:
  assumes "length (currentPnt s) = length (size_pw s)" and "\<not> completed s"
  shows "fst (update 1 s) = None"
    and "completed (snd (update 1 s)) = (ofTotal s + 1 = sint (totalSize s))"
    and "ofTotal (snd (update 1 s)) = ofTotal s + 1"
    and "totalSize (snd (update 1 s)) = totalSize s"
    and "length (currentPnt (snd (update 1 s))) = length (size_pw (snd (update 1 s)))"
  using assms by (simp_all add: update_def updateOneInternal_eq [OF assms(1)])

lemma updateCalls_Suc:
  assumes "length (currentPnt s) = length (size_pw s)" and "\<not> completed s"
  shows "updateCalls (Suc n) s = updateCalls n (snd (update 1 s))"
proof -
  obtain s1 where e: "update 1 s = (None, s1)"
    using update_1_eq(1) [OF assms] by (cases "update 1 s") simp
  show ?thesis
    by (simp add: e)
qed

lemma updateCalls_running:
  "length (currentPnt s) = length (size_pw s) \<Longrightarrow> \<not> completed s \<Longrightarrow>
   ofTotal s + int n < sint (totalSize s) \<or> sint (totalSize s) \<le> ofTotal s \<Longrightarrow>
   fst (updateCalls n s) = None \<and> \<not> completed (snd (updateCalls n s)) \<and>
   ofTotal (snd (updateCalls n s)) = ofTotal s + int n \<and>
   totalSize (snd (updateCalls n s)) = totalSize s \<and>
   length (currentPnt (snd (updateCalls n s))) = length (size_pw (snd (updateCalls n s)))"
proof (induction n arbitrary: s)
  case 0
  then show ?case by simp
next
  case (Suc n)
  let ?s1 = "snd (update 1 s)"
  note U = update_1_eq [OF Suc.prems(1,2)]
  have c: "\<not> completed ?s1"
    using U(2) Suc.prems(3) by auto
  have b: "ofTotal ?s1 + int n < sint (totalSize ?s1) \<or> sint (totalSize ?s1) \<le> ofTotal ?s1"
    using U(3,4) Suc.prems(3) by auto
  show ?case
    unfolding updateCalls_Suc [OF Suc.prems(1,2)]
    using Suc.IH [OF U(5) c b] U(3,4) by simp
qed

lemma update_1_counter:
  assumes "length (currentPnt s) = length (size_pw s)" and "\<not> completed s"
  shows "currentPnt (snd (update 1 s)) = rev (odo (rev (currentPnt s)) (rev (size_pw s)))"
    and "size_pw (snd (update 1 s)) = size_pw s"
  using assms by (simp_all add: update_def updateOneInternal_eq [OF assms(1)])

lemma updateCalls_mixed_radix:
  "length (currentPnt s) = length (size_pw s) \<Longrightarrow> \<not> completed s \<Longrightarrow>
   ofTotal s + int n < sint (totalSize s) \<or> sint (totalSize s) \<le> ofTotal s \<Longrightarrow>
   \<forall>z\<in>set (size_pw s). 1 \<le>s z \<Longrightarrow>
   map sint (rev (currentPnt s)) = mixed_radix_rev (map sint (rev (size_pw s))) k \<Longrightarrow>
   map sint (rev (currentPnt (snd (updateCalls n s))))
     = mixed_radix_rev (map sint (rev (size_pw s))) (k + int n)"
proof (induction n arbitrary: s k)
  case 0
  then show ?case by simp
next
  case (Suc n)
  let ?s1 = "snd (update 1 s)"
  note U = update_1_eq [OF Suc.prems(1,2)]
  note V = update_1_counter [OF Suc.prems(1,2)]
  have c: "\<not> completed ?s1"
    using U(2) Suc.prems(3) by auto
  have b: "ofTotal ?s1 + int n < sint (totalSize ?s1) \<or> sint (totalSize ?s1) \<le> ofTotal ?s1"
    using U(3,4) Suc.prems(3) by auto
  have p: "\<forall>z\<in>set (size_pw ?s1). 1 \<le>s z"
    using V(2) Suc.prems(4) by simp
  have "map sint (odo (rev (currentPnt s)) (rev (size_pw s)))
          = mixed_radix_rev (map sint (rev (size_pw s))) (k + 1)"
    using Suc.prems(4,5) by (intro odo_mixed_radix) simp_all
  then have m: "map sint (rev (currentPnt ?s1))
          = mixed_radix_rev (map sint (rev (size_pw ?s1))) (k + 1)"
    using V by simp
  show ?case
    unfolding updateCalls_Suc [OF Suc.prems(1,2)]
    using Suc.IH [OF U(5) c b p m] V(2) by (simp add: add.assoc)
qed

lemma updateCalls_completes:
  "length (currentPnt s) = length (size_pw s) \<Longrightarrow> \<not> completed s \<Longrightarrow>
   ofTotal s + int (Suc n) = sint (totalSize s) \<Longrightarrow>
   fst (updateCalls (Suc n) s) = None \<and> completed (snd (updateCalls (Suc n) s))"
proof (induction n arbitrary: s)
  case 0
  note U = update_1_eq [OF 0(1,2)]
  show ?case
    unfolding updateCalls_Suc [OF 0(1,2)] using U(1,2) 0(3) by simp
next
  case (Suc n)
  let ?s1 = "snd (update 1 s)"
  note U = update_1_eq [OF Suc.prems(1,2)]
  have c: "\<not> completed ?s1"
    using U(2) Suc.prems(3) by simp
  have b: "ofTotal ?s1 + int (Suc n) = sint (totalSize ?s1)"
    using U(3,4) Suc.prems(3) by simp
  show ?case
    unfolding updateCalls_Suc [OF Suc.prems(1,2), of "Suc n"]
    using Suc.IH [OF U(5) c b] .
qed

text \<open>
  C4. For dimensions that are all at least 1 and \<open>0 <= k < prod(swpSize)\<close>, after \<open>k\<close>
  single steps of the counter (\<open>k\<close> runs of \<open>__updateOneInternal\<close> on a new reporter) no
  exception was raised, \<open>currentPnt\<close> is the mixed-radix representation of \<open>k\<close> in the bases
  \<open>swpSize\<close> with the last dimension least significant, its digits stand for \<open>k\<close>, and
  \<open>ofTotal\<close> is \<open>k\<close>. When the product of the sizes is below \<open>2^63\<close>, \<open>k\<close> calls
  \<open>update()\<close> return and leave the same counter and the same \<open>ofTotal\<close>.
\<close>

theorem counter_is_mixed_radix:
  assumes "\<forall>z\<in>set sz. 1 \<le>s z" and "int k < prod_list (map sint sz)"
  shows "fst (repeatInternal k (init nm (Dims sz) rs sp)) = None \<and>
         map sint (currentPnt (snd (repeatInternal k (init nm (Dims sz) rs sp))))
           = mixed_radix (map sint sz) (int k) \<and>
         mr_value (map sint sz)
           (map sint (currentPnt (snd (repeatInternal k (init nm (Dims sz) rs sp))))) = int k \<and>
         ofTotal (snd (repeatInternal k (init nm (Dims sz) rs sp))) = int k \<and>
         (prod_list (map sint sz) < 2 ^ 63 \<longrightarrow>
            fst (updateCalls k (init nm (Dims sz) rs sp)) = None \<and>
            currentPnt (snd (updateCalls k (init nm (Dims sz) rs sp)))
              = currentPnt (snd (repeatInternal k (init nm (Dims sz) rs sp))) \<and>
            ofTotal (snd (updateCalls k (init nm (Dims sz) rs sp))) = int k)"
proof -
  let ?s0 = "init nm (Dims sz) rs sp"
  have i: "length (currentPnt ?s0) = length (size_pw ?s0)" "size_pw ?s0 = sz"
    "ofTotal ?s0 = 0" "currentPnt ?s0 = map (\<lambda>_. 0) sz" "\<not> completed ?s0"
    "totalSize ?s0 = np_prod sz"
    by (simp_all add: init_def Let_def zeros_like_def)
  have m0: "map sint (rev (currentPnt ?s0)) = mixed_radix_rev (map sint (rev (size_pw ?s0))) 0"
    unfolding i by (simp add: mixed_radix_rev_0 rev_map [symmetric] o_def)
  have p: "\<forall>z\<in>set (size_pw ?s0). 1 \<le>s z"
    using assms(1) i by simp
  note R = repeatInternal_mixed_radix [OF i(1) p m0, of k]
  let ?c = "currentPnt (snd (repeatInternal k ?s0))"
  have "rev (map sint ?c) = mixed_radix_rev (rev (map sint sz)) (int k)"
    using R i by (simp add: rev_map)
  then have c: "map sint ?c = mixed_radix (map sint sz) (int k)"
    unfolding mixed_radix_def by (metis rev_rev_ident)
  have "\<forall>b\<in>set (rev (map sint sz)). 1 \<le> b"
    using assms(1) by (auto simp: word_sle_eq)
  moreover have "int k < prod_list (rev (map sint sz))"
    using assms(2) by (simp add: prod_list.rev)
  ultimately have "mr_value_rev (rev (map sint sz)) (mixed_radix_rev (rev (map sint sz)) (int k)) = int k"
    by (intro mr_value_rev_mixed_radix) simp_all
  then have v: "mr_value (map sint sz) (map sint ?c) = int k"
    unfolding c by (simp add: mr_value_def mixed_radix_def)
  have u: "fst (updateCalls k ?s0) = None \<and>
           currentPnt (snd (updateCalls k ?s0)) = ?c \<and>
           ofTotal (snd (updateCalls k ?s0)) = int k"
    if small: "prod_list (map sint sz) < 2 ^ 63"
  proof -
    have pos: "\<forall>z\<in>set sz. 0 <s z"
      using assms(1) by (auto simp: word_sle_eq word_sless_alt)
    have T: "sint (totalSize ?s0) = prod_list (map sint sz)"
      using sint_np_prod [OF pos small] i(6) by simp
    have run: "ofTotal ?s0 + int k < sint (totalSize ?s0) \<or> sint (totalSize ?s0) \<le> ofTotal ?s0"
      using T assms(2) i(3) by simp
    note A = updateCalls_running [OF i(1) i(5) run]
    have "map sint (rev (currentPnt (snd (updateCalls k ?s0))))
            = mixed_radix_rev (map sint (rev (size_pw ?s0))) (0 + int k)"
      by (rule updateCalls_mixed_radix [OF i(1) i(5) run p m0])
    then have "map sint (rev (currentPnt (snd (updateCalls k ?s0)))) = map sint (rev ?c)"
      using R by simp
    moreover have "inj (sint :: int64 \<Rightarrow> int)"
      by (rule injI) (rule signed_word_eqI)
    ultimately have "rev (currentPnt (snd (updateCalls k ?s0))) = rev ?c"
      by (simp only: inj_map_eq_map)
    then have "currentPnt (snd (updateCalls k ?s0)) = ?c"
      by simp
    then show ?thesis
      using A i(3) by simp
  qed
  show ?thesis
    using R c v i u by simp
qed

theorem counter_is_mixed_radix_witness:
  "1 \<le>s (2 :: int64) \<and> 1 \<le>s (3 :: int64) \<and> int 4 < prod_list (map sint [2, 3 :: int64]) \<and>
   fst (repeatInternal 4 (init ''sweep'' (Dims [2, 3]) True False)) = None \<and>
   map sint (currentPnt (snd (repeatInternal 4 (init ''sweep'' (Dims [2, 3]) True False)))) = [1, 1] \<and>
   ofTotal (snd (repeatInternal 4 (init ''sweep'' (Dims [2, 3]) True False))) = 4 \<and>
   fst (updateCalls 4 (init ''sweep'' (Dims [2, 3]) True False)) = None \<and>
   ofTotal (snd (updateCalls 4 (init ''sweep'' (Dims [2, 3]) True False))) = 4"
proof -
  have p: "\<forall>z\<in>set [2, 3 :: int64]. 1 \<le>s z"
    by (simp add: word_sle_eq)
  have q: "int 4 < prod_list (map sint [2, 3 :: int64])"
    by simp
  have m: "mixed_radix (map sint [2, 3 :: int64]) (int 4) = [1, 1]"
    by (simp add: mixed_radix_def)
  show ?thesis
    using p q counter_is_mixed_radix [OF p q, of "''sweep''" True False]
    unfolding m by (simp add: word_sle_eq)
qed

text \<open>
  C1, amended. For a tuple \<open>swpSize\<close> of positive sizes whose product is below \<open>2^63\<close> (so that
  the \<open>int64\<close> product \<open>np.prod\<close> computes is the true product), \<open>prod(swpSize)\<close> calls
  \<open>update()\<close> all return, the last one sets \<open>completed\<close>, and after any smaller number of
  calls \<open>completed\<close> is still \<open>False\<close>. For \<open>swpSize=(2,3)\<close>: \<open>True\<close> after 6 calls,
  \<open>False\<close> after 5.
\<close>

theorem completed_after_all_points:
  assumes "\<forall>z\<in>set sz. 0 <s z" and "prod_list (map sint sz) < 2 ^ 63"
  shows "fst (updateCalls (nat (prod_list (map sint sz))) (init nm (Dims sz) rs sp)) = None \<and>
         completed (snd (updateCalls (nat (prod_list (map sint sz))) (init nm (Dims sz) rs sp))) \<and>
         (\<forall>k < nat (prod_list (map sint sz)).
            fst (updateCalls k (init nm (Dims sz) rs sp)) = None \<and>
            \<not> completed (snd (updateCalls k (init nm (Dims sz) rs sp))))"
proof -
  let ?s0 = "init nm (Dims sz) rs sp"
  let ?N = "prod_list (map sint sz)"
  have i: "length (currentPnt ?s0) = length (size_pw ?s0)" "\<not> completed ?s0"
    "ofTotal ?s0 = 0" "totalSize ?s0 = np_prod sz"
    by (simp_all add: init_def Let_def zeros_like_def)
  have T: "sint (totalSize ?s0) = ?N"
    using sint_np_prod [OF assms] i(4) by simp
  have pos: "0 < ?N"
    using assms(1) by (intro prod_list_pos) (auto simp: word_sless_alt)
  then obtain n where n: "nat ?N = Suc n"
    by (cases "nat ?N") simp_all
  then have "ofTotal ?s0 + int (Suc n) = sint (totalSize ?s0)"
    using T i(3) pos by simp
  then have a: "fst (updateCalls (nat ?N) ?s0) = None \<and> completed (snd (updateCalls (nat ?N) ?s0))"
    unfolding n by (rule updateCalls_completes [OF i(1,2)])
  have b: "fst (updateCalls k ?s0) = None \<and> \<not> completed (snd (updateCalls k ?s0))"
    if "k < nat ?N" for k
  proof -
    have "ofTotal ?s0 + int k < sint (totalSize ?s0)"
      using that T i(3) by simp
    then show ?thesis
      using updateCalls_running [OF i(1,2), of k] by simp
  qed
  show ?thesis
    using a b by blast
qed

theorem completed_after_all_points_witness:
  "0 <s (2 :: int64) \<and> 0 <s (3 :: int64) \<and> prod_list (map sint [2, 3 :: int64]) < 2 ^ 63 \<and>
   completed (snd (updateCalls 6 (init ''sweep'' (Dims [2, 3]) True False))) \<and>
   \<not> completed (snd (updateCalls 5 (init ''sweep'' (Dims [2, 3]) True False)))"
proof -
  have p: "\<forall>z\<in>set [2, 3 :: int64]. 0 <s z"
    by (simp add: word_sless_alt)
  have q: "prod_list (map sint [2, 3 :: int64]) < 2 ^ 63"
    by simp
  have n: "nat (prod_list (map sint [2, 3 :: int64])) = 6" "(5::nat) < 6"
    by simp_all
  have g: "0 <s (2 :: int64)" "0 <s (3 :: int64)"
    by (simp_all add: word_sless_alt)
  show ?thesis
    using g q n(2) completed_after_all_points [OF p q, of "''sweep''" True False]
    unfolding n(1) by blast
qed

text \<open>
  Without the bound the product wraps around: for \<open>swpSize = (2^32, 2^32)\<close> numpy computes
  \<open>totalSize = 0\<close>, which \<open>ofTotal\<close> never equals once it has been incremented.
\<close>

lemma never_completes:
  assumes "sint (np_prod sz) \<le> 0"
  shows "\<not> completed (snd (updateCalls n (init nm (Dims sz) rs sp)))"
proof -
  let ?s0 = "init nm (Dims sz) rs sp"
  have i: "length (currentPnt ?s0) = length (size_pw ?s0)" "\<not> completed ?s0"
    "ofTotal ?s0 = 0" "totalSize ?s0 = np_prod sz"
    by (simp_all add: init_def Let_def zeros_like_def)
  have "ofTotal ?s0 + int n < sint (totalSize ?s0) \<or> sint (totalSize ?s0) \<le> ofTotal ?s0"
    using assms i(3,4) by simp
  then show ?thesis
    using updateCalls_running [OF i(1,2), of n] by simp
qed

theorem completed_overflow_counterexample:
  "0 <s (4294967296 :: int64) \<and>
   prod_list (map sint [4294967296, 4294967296 :: int64]) = 18446744073709551616 \<and>
   \<not> completed (snd (updateCalls 18446744073709551616
        (init ''sweep'' (Dims [4294967296, 4294967296]) False False)))"
proof -
  have "np_prod [4294967296, 4294967296] = 0"
    by (simp add: np_prod_def)
  then have "sint (np_prod [4294967296, 4294967296]) \<le> 0"
    by simp
  then show ?thesis
    using never_completes [of "[4294967296, 4294967296]"] by (simp add: word_sless_alt)
qed

section \<open>Properties of the file functions\<close>

lemma endswith_append [simp]: "endswith (s @ suf) suf"
  by (simp add: endswith_def)

lemma last_chars_mat: "last_chars 4 f \<noteq> ''.mat'' \<longleftrightarrow> \<not> endswith f ''.mat''"
proof (cases "4 \<le> length f")
  case True
  then show ?thesis by (simp add: last_chars_def endswith_def eval_nat_numeral)
next
  case False
  then have "length (last_chars 4 f) \<noteq> length ''.mat''"
    by (simp add: last_chars_def)
  then have "last_chars 4 f \<noteq> ''.mat''"
    by metis
  then show ?thesis
    using False by (simp add: endswith_def)
qed


lemma os_makedirs_snd [simp]:
  "calls (snd (os_makedirs L d w)) = calls w @ [Makedirs d]"
  "fileDir (snd (os_makedirs L d w)) = fileDir w"
  by (simp_all add: os_makedirs_def log_call_def Let_def)

lemma touch_snd [simp]:
  "calls (snd (touch L p w)) = calls w @ [Touch p]"
  "fileDir (snd (touch L p w)) = fileDir w"
  by (simp_all add: touch_def log_call_def Let_def)

lemma open_wb_snd [simp]:
  "calls (snd (open_wb L p w)) = calls w @ [OpenWrite p]"
  "fileDir (snd (open_wb L p w)) = fileDir w"
  by (simp_all add: open_wb_def log_call_def Let_def)

lemma open_rb_snd [simp]:
  "snd (open_rb L p w) = log_call (OpenRead p) w"
  by (simp add: open_rb_def Let_def split: option.splits)

lemma path_exists_snd [simp]:
  "snd (path_exists L p w) = log_call (Exists p) w"
  by (simp add: path_exists_def)

lemma log_call_fields [simp]:
  "calls (log_call c w) = calls w @ [c]"
  "fileDir (log_call c w) = fileDir w"
  "files (log_call c w) = files w"
  "dirs (log_call c w) = dirs w"
  by (simp_all add: log_call_def)

lemma write_bytes_fields [simp]:
  "calls (write_bytes L p b w) = calls w"
  "fileDir (write_bytes L p b w) = fileDir w"
  "files (write_bytes L p b w) (resolve L p) = Some b"
  by (simp_all add: write_bytes_def)

lemmas case_ifs = prod.case_eq_if sum.case_eq_if

lemma makeFileExist_calls:
  "prefix (new_calls w (snd (makeFileExist L fn w)))
     [Makedirs (fileDir w), Touch (pjoin L (fileDir w) fn)]"
  by (simp add: makeFileExist_def new_calls_def case_ifs Let_def)

lemma makeFileExist_fileDir [simp]:
  "fileDir (snd (makeFileExist L fn w)) = fileDir w"
  by (simp add: makeFileExist_def case_ifs Let_def)

lemma makeFileExist_ok:
  assumes "fst (makeFileExist L fn w) = Inr rp"
  shows "rp = resolve L (pjoin L (fileDir w) fn)"
    and "calls (snd (makeFileExist L fn w))
           = calls w @ [Makedirs (fileDir w), Touch (pjoin L (fileDir w) fn)]"
  using assms by (simp_all add: makeFileExist_def case_ifs Let_def split: if_splits)

lemma prefix_longer: "prefix xs [a, b] \<Longrightarrow> prefix xs [a, b, c]"
  by (erule prefix_order.trans) simp

lemma savePickleGzip_calls:
  "prefix (new_calls w (snd (savePickleGzip L f v w)))
     [Makedirs (fileDir w), Touch (pjoin L (fileDir w) (gzfilename f)),
      OpenWrite (resolve L (pjoin L (fileDir w) (gzfilename f)))]"
proof (cases "fst (makeFileExist L (gzfilename f) w)")
  case (Inl e)
  then have "snd (savePickleGzip L f v w) = snd (makeFileExist L (gzfilename f) w)"
    by (simp add: savePickleGzip_def case_ifs)
  then show ?thesis
    using makeFileExist_calls [of w L "gzfilename f"]
    by (simp add: prefix_longer)
next
  case (Inr rp)
  note ok = makeFileExist_ok [OF Inr]
  show ?thesis
    using Inr ok
    by (simp add: savePickleGzip_def case_ifs new_calls_def)
qed

lemma loadPickleGzip_calls:
  "new_calls w (snd (loadPickleGzip L f w))
     = [OpenRead (resolve L (pjoin L (fileDir w) (gzfilename f)))]"
  by (simp add: loadPickleGzip_def case_ifs new_calls_def Let_def)


lemma saveMat_calls:
  "prefix (new_calls w (snd (saveMat L f d w)))
     [Makedirs (fileDir w), Touch (pjoin L (fileDir w) (mat_name f)),
      OpenWrite (resolve L (pjoin L (fileDir w) (mat_name f)))]"
proof -
  let ?fn = "if last_chars 4 f \<noteq> ''.mat'' then f @ ''.mat'' else f"
  have fn: "?fn = mat_name f"
    by (simp add: last_chars_mat mat_name_def)
  show ?thesis
  proof (cases "fst (makeFileExist L (mat_name f) w)")
    case (Inl e)
    then have "snd (saveMat L f d w) = snd (makeFileExist L (mat_name f) w)"
      unfolding saveMat_def fn by (simp add: case_ifs)
    then show ?thesis
      using makeFileExist_calls [of w L "mat_name f"]
      by (simp add: prefix_longer)
  next
    case (Inr rp)
    note ok = makeFileExist_ok [OF Inr]
    show ?thesis
      unfolding saveMat_def fn using Inr ok
      by (simp add: case_ifs new_calls_def Let_def)
  qed
qed

lemma loadMat_calls:
  "prefix (new_calls w (snd (loadMat L f w)))
     [Exists (pjoin L (fileDir w) (mat_name f)),
      OpenRead (resolve L (pjoin L (fileDir w) (mat_name f)))]"
proof -
  let ?fn = "if last_chars 4 f \<noteq> ''.mat'' then f @ ''.mat'' else f"
  have fn: "?fn = mat_name f"
    by (simp add: last_chars_mat mat_name_def)
  show ?thesis
    unfolding loadMat_def fn
    by (simp add: case_ifs new_calls_def Let_def bool.case_eq_if)
qed


lemma loadMat_calls_exact:
  "new_calls w (snd (loadMat L f w)) =
     (if resolve L (pjoin L (fileDir w) (mat_name f)) \<in> dom (files w) \<or>
         resolve L (pjoin L (fileDir w) (mat_name f)) \<in> dirs w
      then [Exists (pjoin L (fileDir w) (mat_name f)),
            OpenRead (resolve L (pjoin L (fileDir w) (mat_name f)))]
      else [Exists (pjoin L (fileDir w) (mat_name f))])"
proof -
  let ?fn = "if last_chars 4 f \<noteq> ''.mat'' then f @ ''.mat'' else f"
  have fn: "?fn = mat_name f"
    by (simp add: last_chars_mat mat_name_def)
  show ?thesis
    unfolding loadMat_def fn
    by (simp add: case_ifs new_calls_def Let_def bool.case_eq_if path_exists_def)
qed

lemma saveMat_calls_ok:
  assumes "fst (saveMat L f d w) = Inr ()"
  shows "new_calls w (snd (saveMat L f d w)) =
     [Makedirs (fileDir w), Touch (pjoin L (fileDir w) (mat_name f)),
      OpenWrite (resolve L (pjoin L (fileDir w) (mat_name f)))]"
proof -
  let ?fn = "if last_chars 4 f \<noteq> ''.mat'' then f @ ''.mat'' else f"
  have fn: "?fn = mat_name f"
    by (simp add: last_chars_mat mat_name_def)
  obtain rp where rp: "fst (makeFileExist L (mat_name f) w) = Inr rp"
    using assms unfolding saveMat_def fn
    by (cases "fst (makeFileExist L (mat_name f) w)") (simp_all add: case_ifs Let_def)
  note ok = makeFileExist_ok [OF rp]
  show ?thesis
    unfolding saveMat_def fn using rp ok
    by (simp add: case_ifs new_calls_def Let_def)
qed

lemma saveMat_fileDir [simp]: "fileDir (snd (saveMat L f d w)) = fileDir w"
  by (simp add: saveMat_def case_ifs Let_def)

text \<open>
  C7. \<open>saveMat\<close> and \<open>loadMat\<close> work on \<open>filename + '.mat'\<close> when \<open>filename\<close> does not end
  in \<open>.mat\<close> (a call with \<open>filename\<close> is the same as a call with \<open>filename + '.mat'\<close>) and on
  \<open>filename\<close> itself when it does. Every file-system call \<open>saveMat(f, d)\<close> makes below
  \<open>fileDir\<close> is on \<open>fileDir / mat_name f\<close> or its resolved path, and so is every call of a
  following \<open>loadMat(f)\<close>: they address the same file.
\<close>

theorem mat_extension_convention:
  "(endswith f ''.mat'' \<longrightarrow> mat_name f = f) \<and>
   (\<not> endswith f ''.mat'' \<longrightarrow> mat_name f = f @ ''.mat'' \<and>
      saveMat L f d w = saveMat L (f @ ''.mat'') d w \<and>
      loadMat L f w = loadMat L (f @ ''.mat'') w) \<and>
   prefix (new_calls w (snd (saveMat L f d w)))
     [Makedirs (fileDir w), Touch (pjoin L (fileDir w) (mat_name f)),
      OpenWrite (resolve L (pjoin L (fileDir w) (mat_name f)))] \<and>
   (fst (saveMat L f d w) = Inr () \<longrightarrow>
      new_calls w (snd (saveMat L f d w)) =
        [Makedirs (fileDir w), Touch (pjoin L (fileDir w) (mat_name f)),
         OpenWrite (resolve L (pjoin L (fileDir w) (mat_name f)))]) \<and>
   prefix [Exists (pjoin L (fileDir w) (mat_name f))]
     (new_calls (snd (saveMat L f d w)) (snd (loadMat L f (snd (saveMat L f d w))))) \<and>
   prefix (new_calls (snd (saveMat L f d w)) (snd (loadMat L f (snd (saveMat L f d w)))))
     [Exists (pjoin L (fileDir w) (mat_name f)),
      OpenRead (resolve L (pjoin L (fileDir w) (mat_name f)))]"
proof -
  have a: "saveMat L f d w = saveMat L (f @ ''.mat'') d w \<and> loadMat L f w = loadMat L (f @ ''.mat'') w"
    if "\<not> endswith f ''.mat''"
  proof -
    have "last_chars 4 f \<noteq> ''.mat''" "\<not> last_chars 4 (f @ ''.mat'') \<noteq> ''.mat''"
      using that by (simp_all add: last_chars_mat)
    then show ?thesis
      by (simp add: saveMat_def loadMat_def)
  qed
  let ?w' = "snd (saveMat L f d w)"
  have l: "prefix (new_calls ?w' (snd (loadMat L f ?w')))
     [Exists (pjoin L (fileDir w) (mat_name f)),
      OpenRead (resolve L (pjoin L (fileDir w) (mat_name f)))]"
    using loadMat_calls [of ?w' L f] by simp
  have e: "prefix [Exists (pjoin L (fileDir w) (mat_name f))] (new_calls ?w' (snd (loadMat L f ?w')))"
    by (simp add: loadMat_calls_exact)
  show ?thesis
    using a saveMat_calls [of w L f d] saveMat_calls_ok [of L f d w] l e
    by (simp add: mat_name_def)
qed


lemmas example_defs = makeFileExist_def os_makedirs_def touch_def open_wb_def open_rb_def
  path_exists_def write_bytes_def log_call_def Let_def example_lib_def example_world_def
  last_chars_def endswith_def new_calls_def

theorem mat_extension_convention_witness:
  "\<not> endswith ''run1'' ''.mat'' \<and> mat_name ''run1'' = ''run1.mat'' \<and>
   saveMat example_lib ''run1'' [(''a'', [1, 2])] example_world
     = saveMat example_lib ''run1.mat'' [(''a'', [1, 2])] example_world \<and>
   fst (saveMat example_lib ''run1'' [(''a'', [1, 2])] example_world) = Inr () \<and>
   new_calls example_world (snd (saveMat example_lib ''run1'' [(''a'', [1, 2])] example_world))
     = [Makedirs ''/data'', Touch ''/data/run1.mat'', OpenWrite ''/data/run1.mat''] \<and>
   endswith ''run1.mat'' ''.mat'' \<and> mat_name ''run1.mat'' = ''run1.mat''"
proof -
  have n: "\<not> endswith ''run1'' ''.mat''" "endswith ''run1.mat'' ''.mat''"
    by (simp_all add: endswith_def)
  have ok: "fst (saveMat example_lib ''run1'' [(''a'', [1, 2])] example_world) = Inr ()"
    by (simp add: saveMat_def example_defs)
  have p: "pjoin example_lib ''/data'' ''run1.mat'' = ''/data/run1.mat''"
    "resolve example_lib ''/data/run1.mat'' = ''/data/run1.mat''"
    "fileDir example_world = ''/data''"
    by (simp_all add: example_lib_def example_world_def)
  show ?thesis
    using n ok
      mat_extension_convention [of "''run1''" example_lib "[(''a'', [1, 2])]" example_world]
      mat_extension_convention [of "''run1.mat''" example_lib "[(''a'', [1, 2])]" example_world]
    by (simp add: p)
qed

lemma savePickleGzip_calls_ok:
  assumes "fst (savePickleGzip L f v w) = Inr ()"
  shows "new_calls w (snd (savePickleGzip L f v w)) =
     [Makedirs (fileDir w), Touch (pjoin L (fileDir w) (gzfilename f)),
      OpenWrite (resolve L (pjoin L (fileDir w) (gzfilename f)))]"
proof -
  obtain rp where rp: "fst (makeFileExist L (gzfilename f) w) = Inr rp"
    using assms unfolding savePickleGzip_def
    by (cases "fst (makeFileExist L (gzfilename f) w)") (simp_all add: case_ifs)
  note ok = makeFileExist_ok [OF rp]
  show ?thesis
    unfolding savePickleGzip_def using rp ok
    by (simp add: case_ifs new_calls_def)
qed

text \<open>
  C8. \<open>_gzfilename(f)\<close> ends with \<open>.gz\<close>, is idempotent, and equals \<open>f\<close> exactly when \<open>f\<close>
  ends with \<open>.gz\<close>; as a HOL function it is total. \<open>savePickleGzip\<close> touches and opens, and
  \<open>loadPickleGzip\<close> opens, \<open>fileDir / _gzfilename(filename)\<close>.
\<close>

theorem gzfilename_normalizer:
  "endswith (gzfilename f) ''.gz'' \<and>
   gzfilename (gzfilename f) = gzfilename f \<and>
   (gzfilename f = f \<longleftrightarrow> endswith f ''.gz'') \<and>
   prefix (new_calls w (snd (savePickleGzip L f v w)))
     [Makedirs (fileDir w), Touch (pjoin L (fileDir w) (gzfilename f)),
      OpenWrite (resolve L (pjoin L (fileDir w) (gzfilename f)))] \<and>
   (fst (savePickleGzip L f v w) = Inr () \<longrightarrow>
      new_calls w (snd (savePickleGzip L f v w)) =
        [Makedirs (fileDir w), Touch (pjoin L (fileDir w) (gzfilename f)),
         OpenWrite (resolve L (pjoin L (fileDir w) (gzfilename f)))]) \<and>
   new_calls w (snd (loadPickleGzip L f w))
     = [OpenRead (resolve L (pjoin L (fileDir w) (gzfilename f)))]"
  using savePickleGzip_calls [of w L f v] savePickleGzip_calls_ok [of L f v w]
    loadPickleGzip_calls [of w L f]
  by (simp add: gzfilename_def)

theorem gzfilename_normalizer_witness:
  "gzfilename ''run1'' = ''run1.gz'' \<and> gzfilename ''run1.gz'' = ''run1.gz'' \<and>
   fst (savePickleGzip example_lib ''run1'' [7] example_world) = Inr () \<and>
   new_calls example_world (snd (savePickleGzip example_lib ''run1'' [7] example_world))
     = [Makedirs ''/data'', Touch ''/data/run1.gz'', OpenWrite ''/data/run1.gz''] \<and>
   new_calls example_world (snd (loadPickleGzip example_lib ''run1'' example_world))
     = [OpenRead ''/data/run1.gz'']"
proof -
  have g: "gzfilename ''run1'' = ''run1.gz''" "gzfilename ''run1.gz'' = ''run1.gz''"
    by (simp_all add: gzfilename_def endswith_def)
  have ok: "fst (savePickleGzip example_lib ''run1'' [7] example_world) = Inr ()"
    unfolding savePickleGzip_def g by (simp add: example_defs)
  have p: "pjoin example_lib ''/data'' ''run1.gz'' = ''/data/run1.gz''"
    "resolve example_lib ''/data/run1.gz'' = ''/data/run1.gz''"
    "fileDir example_world = ''/data''"
    by (simp_all add: example_lib_def example_world_def)
  show ?thesis
    using ok gzfilename_normalizer [of "''run1''" example_world example_lib "[7]"]
    by (simp add: g p)
qed

text \<open>
  C2. When \<open>fileDir / filename\<close> (with \<open>.mat\<close> appended unless \<open>filename\<close> ends in it) does
  not exist, \<open>loadMat(filename)\<close> raises \<open>FileNotFoundError\<close> for that path; the only call it
  made on the file system is the existence test, so nothing was read, and no file changed.
\<close>

theorem loadMat_missing_file:
  assumes "\<not> fst (path_exists L (pjoin L (fileDir w) (mat_name f)) w)"
  shows "fst (loadMat L f w) = Inl (FileNotFoundError (pjoin L (fileDir w) (mat_name f))) \<and>
         new_calls w (snd (loadMat L f w)) = [Exists (pjoin L (fileDir w) (mat_name f))] \<and>
         files (snd (loadMat L f w)) = files w \<and> dirs (snd (loadMat L f w)) = dirs w"
proof -
  let ?fn = "if last_chars 4 f \<noteq> ''.mat'' then f @ ''.mat'' else f"
  have fn: "?fn = mat_name f"
    by (simp add: last_chars_mat mat_name_def)
  have "loadMat L f w = (Inl (FileNotFoundError (pjoin L (fileDir w) (mat_name f))),
                         log_call (Exists (pjoin L (fileDir w) (mat_name f))) w)"
    unfolding loadMat_def fn using assms
    by (simp add: Let_def prod.case_eq_if)
  then show ?thesis
    by (simp add: new_calls_def)
qed

theorem loadMat_missing_file_witness:
  "\<not> fst (path_exists example_lib ''/data/run1.mat'' example_world) \<and>
   fst (loadMat example_lib ''run1'' example_world) = Inl (FileNotFoundError ''/data/run1.mat'') \<and>
   new_calls example_world (snd (loadMat example_lib ''run1'' example_world))
     = [Exists ''/data/run1.mat'']"
proof -
  have m: "mat_name ''run1'' = ''run1.mat''"
    by (simp add: mat_name_def endswith_def)
  have p: "pjoin example_lib (fileDir example_world) ''run1.mat'' = ''/data/run1.mat''"
    by (simp add: example_lib_def example_world_def)
  have n: "\<not> fst (path_exists example_lib ''/data/run1.mat'' example_world)"
    by (simp add: path_exists_def example_lib_def example_world_def)
  show ?thesis
    using n loadMat_missing_file [of example_lib example_world "''run1''"]
    unfolding m p by simp
qed

lemma open_wb_ok:
  assumes "fst (open_wb L p w) = Inr u"
  shows "resolve L p \<notin> dirs w" and "dirs (snd (open_wb L p w)) = dirs w"
  using assms by (simp_all add: open_wb_def Let_def split: if_splits)

lemma write_bytes_dirs [simp]: "dirs (write_bytes L p b w) = dirs w"
  by (simp add: write_bytes_def)

lemma savePickle_ok:
  assumes "fst (savePickle L f v w) = Inr ()"
  obtains b where "pickle_dumps L v = Inr b"
    and "files (snd (savePickle L f v w)) (resolve L (resolve L (pjoin L (fileDir w) f))) = Some b"
    and "resolve L (resolve L (pjoin L (fileDir w) f)) \<notin> dirs (snd (savePickle L f v w))"
    and "new_calls w (snd (savePickle L f v w)) =
           [Makedirs (fileDir w), Touch (pjoin L (fileDir w) f),
            OpenWrite (resolve L (pjoin L (fileDir w) f))]"
    and "fileDir (snd (savePickle L f v w)) = fileDir w"
proof -
  obtain rp where rp: "fst (makeFileExist L f w) = Inr rp"
    using assms unfolding savePickle_def
    by (cases "fst (makeFileExist L f w)") (simp_all add: case_ifs)
  note ok = makeFileExist_ok [OF rp]
  let ?w1 = "snd (makeFileExist L f w)"
  have o: "fst (open_wb L rp ?w1) = Inr ()"
    using assms rp unfolding savePickle_def
    by (cases "fst (open_wb L rp ?w1)") (simp_all add: case_ifs)
  note wb = open_wb_ok [OF o]
  let ?w2 = "snd (open_wb L rp ?w1)"
  obtain b where b: "pickle_dumps L v = Inr b"
    using assms rp o unfolding savePickle_def
    by (cases "pickle_dumps L v") (simp_all add: case_ifs)
  have e: "snd (savePickle L f v w) = write_bytes L rp b ?w2"
    using rp o b unfolding savePickle_def by (simp add: case_ifs)
  show ?thesis
  proof (rule that [OF b])
    show "files (snd (savePickle L f v w)) (resolve L (resolve L (pjoin L (fileDir w) f))) = Some b"
      unfolding e using ok(1) by simp
    show "resolve L (resolve L (pjoin L (fileDir w) f)) \<notin> dirs (snd (savePickle L f v w))"
      unfolding e using ok(1) wb by simp
    show "new_calls w (snd (savePickle L f v w)) =
           [Makedirs (fileDir w), Touch (pjoin L (fileDir w) f),
            OpenWrite (resolve L (pjoin L (fileDir w) f))]"
      unfolding e using ok by (simp add: new_calls_def)
    show "fileDir (snd (savePickle L f v w)) = fileDir w"
      unfolding e by simp
  qed
qed

text \<open>
  C6, amended. Whenever \<open>savePickle(f, v)\<close> returns without raising, and \<open>pickle.load\<close> gives
  back \<open>v\<close> from what \<open>pickle.dump\<close> wrote for it, a following \<open>loadPickle(f)\<close> returns \<open>v\<close>;
  the save opened for writing, and the load opened for reading, the same resolved path
  \<open>(fileDir / f).resolve()\<close>.
\<close>

theorem pickle_round_trip:
  assumes "fst (savePickle L f v w) = Inr ()"
    and "\<And>b. pickle_dumps L v = Inr b \<Longrightarrow> pickle_loads L b = Inr v"
  shows "fst (loadPickle L f (snd (savePickle L f v w))) = Inr v \<and>
         new_calls w (snd (savePickle L f v w)) =
           [Makedirs (fileDir w), Touch (pjoin L (fileDir w) f),
            OpenWrite (resolve L (pjoin L (fileDir w) f))] \<and>
         new_calls (snd (savePickle L f v w)) (snd (loadPickle L f (snd (savePickle L f v w))))
           = [OpenRead (resolve L (pjoin L (fileDir w) f))]"
proof -
  let ?w' = "snd (savePickle L f v w)"
  let ?rp = "resolve L (pjoin L (fileDir w) f)"
  from assms(1) obtain b where b: "pickle_dumps L v = Inr b"
    and fl: "files ?w' (resolve L ?rp) = Some b"
    and nd: "resolve L ?rp \<notin> dirs ?w'"
    and cs: "new_calls w ?w' = [Makedirs (fileDir w), Touch (pjoin L (fileDir w) f), OpenWrite ?rp]"
    and fd: "fileDir ?w' = fileDir w"
    by (rule savePickle_ok)
  have r: "open_rb L ?rp ?w' = (Inr b, log_call (OpenRead ?rp) ?w')"
    using fl nd by (simp add: open_rb_def Let_def)
  have "loadPickle L f ?w' = (pickle_loads L b, log_call (OpenRead ?rp) ?w')"
    unfolding loadPickle_def fd Let_def r by simp
  then show ?thesis
    using assms(2) [OF b] cs by (simp add: new_calls_def)
qed

theorem pickle_round_trip_witness:
  "fst (savePickle example_lib ''run1.pkl'' [1, 2, 3] example_world) = Inr () \<and>
   pickle_loads example_lib [1, 2, 3] = Inr [1, 2, 3] \<and>
   fst (loadPickle example_lib ''run1.pkl''
          (snd (savePickle example_lib ''run1.pkl'' [1, 2, 3] example_world))) = Inr [1, 2, 3]"
proof -
  have ok: "fst (savePickle example_lib ''run1.pkl'' [1, 2, 3] example_world) = Inr ()"
    by (simp add: savePickle_def example_defs)
  have rt: "pickle_loads example_lib b = Inr [1, 2, 3]"
    if "pickle_dumps example_lib [1, 2, 3] = Inr b" for b
    using that by (simp add: example_lib_def)
  have l: "pickle_loads example_lib [1, 2, 3] = Inr [1, 2, 3]"
    by (simp add: example_lib_def)
  show ?thesis
    using ok l pickle_round_trip [OF ok rt] by simp
qed

text \<open>
  Not every file name can be saved to: with the empty name \<open>fileDir / f\<close> is the directory
  \<open>fileDir\<close> itself, \<open>touch\<close> succeeds on it and opening it for writing raises
  \<open>IsADirectoryError\<close>; the load fails the same way.
\<close>

theorem pickle_round_trip_counterexample:
  "pickle_dumps example_lib [1, 2, 3] = Inr [1, 2, 3] \<and>
   pickle_loads example_lib [1, 2, 3] = Inr [1, 2, 3] \<and>
   fst (savePickle example_lib [] [1, 2, 3] example_world) = Inl (IsADirectoryError ''/data'') \<and>
   fst (loadPickle example_lib []
          (snd (savePickle example_lib [] [1, 2, 3] example_world)))
     = Inl (IsADirectoryError ''/data'')"
  by (simp add: savePickle_def loadPickle_def example_defs)

section \<open>Properties of \<open>JSONpickleable\<close>\<close>

subsection \<open>\<open>__getstate__\<close>\<close>

lemma keys_dict_set [simp]: "fst ` set (dict_set k v d) = insert k (fst ` set d)"
  by (induction d) force+

lemma map_of_dict_set [simp]: "map_of (dict_set k v d) = (map_of d)(k \<mapsto> v)"
  by (induction d) auto

text \<open>
  \<open>allNotPickled\<close> is the union of the \<open>notPickled\<close> of the instance and of those of the
  classes of the MRO that have one.
\<close>

lemma allNotPickled_union:
  "allNotPickled acc bases = acc \<union> \<Union> {s. Some s \<in> set bases}"
proof (induction acc bases rule: allNotPickled.induct)
  case (1 acc)
  then show ?case by simp
next
  case (2 acc bases)
  then show ?case by simp
next
  case (3 acc theirNotPickled bases)
  have "{s. Some s \<in> set (Some theirNotPickled # bases)}
          = insert theirNotPickled {s. Some s \<in> set bases}"
    by auto
  then show ?case
    using 3 by (simp add: Un_assoc)
qed

lemma getstate_item_shape:
  assumes "getstate_item dumps np key val state dels = Inr (state', dels')"
  shows "state' = state \<or> (\<exists>k' v. state' = dict_set k' v state)"
    and "dels' = dels \<or> dels' = List.insert key dels"
    and "key \<in> np \<Longrightarrow> key \<in> range StrKey \<Longrightarrow> dels' = List.insert key dels"
proof -
  show "state' = state \<or> (\<exists>k' v. state' = dict_set k' v state)"
    using assms
    by (simp add: getstate_item_def split: key.splits if_splits sum.splits bool.splits) blast+
  show "dels' = dels \<or> dels' = List.insert key dels"
    using assms
    by (simp add: getstate_item_def split: key.splits if_splits sum.splits bool.splits)
  show "dels' = List.insert key dels" if "key \<in> np" "key \<in> range StrKey"
    using assms that
    by (auto simp: getstate_item_def split: key.splits if_splits sum.splits bool.splits)
qed

lemma getstate_item_Inr:
  assumes "getstate_item dumps np key val state dels = Inr (state', dels')"
  shows "fst ` set state \<subseteq> fst ` set state'"
    and "set dels \<subseteq> set dels'"
    and "set dels' \<subseteq> insert key (set dels)"
    and "distinct dels \<Longrightarrow> distinct dels'"
    and "key \<in> np \<Longrightarrow> key \<in> range StrKey \<Longrightarrow> key \<in> set dels'"
proof -
  note S = getstate_item_shape [OF assms]
  show "fst ` set state \<subseteq> fst ` set state'"
  proof (cases "state' = state")
    case True
    then show ?thesis by simp
  next
    case False
    then obtain k' v where "state' = dict_set k' v state"
      using S(1) by blast
    then have "fst ` set state' = insert k' (fst ` set state)"
      by simp
    then show ?thesis by blast
  qed
  show "set dels \<subseteq> set dels'"
    using S(2) by auto
  show "set dels' \<subseteq> insert key (set dels)"
    using S(2) by auto
  show "distinct dels'" if "distinct dels"
    using S(2) that by auto
  show "key \<in> set dels'" if "key \<in> np" "key \<in> range StrKey"
    using S(3) [OF that] by simp
qed

lemma getstate_loop_state_keys:
  "fst ` set state \<subseteq> fst ` set (fst (snd (getstate_loop dumps np items state dels)))"
proof (induction items arbitrary: state dels)
  case Nil
  then show ?case by simp
next
  case (Cons item items)
  obtain key val where item: "item = (key, val)" by (cases item)
  show ?case
  proof (cases "getstate_item dumps np key val state dels")
    case (Inl e)
    then show ?thesis by (simp add: item)
  next
    case (Inr r)
    obtain state' dels' where r: "r = (state', dels')" by (cases r)
    have "fst ` set state \<subseteq> fst ` set state'"
      using getstate_item_Inr(1) [OF Inr [unfolded r]] .
    also have "\<dots> \<subseteq> fst ` set (fst (snd (getstate_loop dumps np items state' dels')))"
      by (rule Cons.IH)
    finally show ?thesis
      by (simp add: item Inr r)
  qed
qed

lemma getstate_loop_dels:
  "set dels \<subseteq> set (snd (snd (getstate_loop dumps np items state dels))) \<and>
   set (snd (snd (getstate_loop dumps np items state dels))) \<subseteq> set dels \<union> fst ` set items \<and>
   (distinct dels \<longrightarrow> distinct (snd (snd (getstate_loop dumps np items state dels))))"
proof (induction items arbitrary: state dels)
  case Nil
  then show ?case by simp
next
  case (Cons item items)
  obtain key val where item: "item = (key, val)" by (cases item)
  show ?case
  proof (cases "getstate_item dumps np key val state dels")
    case (Inl e)
    then show ?thesis by (auto simp: item)
  next
    case (Inr r)
    obtain state' dels' where r: "r = (state', dels')" by (cases r)
    note I = getstate_item_Inr(2-4) [OF Inr [unfolded r]]
    have l: "getstate_loop dumps np (item # items) state dels
               = getstate_loop dumps np items state' dels'"
      by (simp add: item Inr r)
    have k: "fst ` set (item # items) = insert key (fst ` set items)"
      by (simp add: item)
    show ?thesis
      unfolding l k using I Cons.IH [of dels' state'] by blast
  qed
qed

lemma getstate_loop_dels_notPickled:
  "fst (getstate_loop dumps np items state dels) = None \<Longrightarrow>
   StrKey k \<in> np \<Longrightarrow> StrKey k \<in> fst ` set items \<Longrightarrow>
   StrKey k \<in> set (snd (snd (getstate_loop dumps np items state dels)))"
proof (induction items arbitrary: state dels)
  case Nil
  then show ?case by simp
next
  case (Cons item items)
  obtain key val where item: "item = (key, val)" by (cases item)
  show ?case
  proof (cases "getstate_item dumps np key val state dels")
    case (Inl e)
    then show ?thesis using Cons.prems(1) by (simp add: item)
  next
    case (Inr r)
    obtain state' dels' where r: "r = (state', dels')" by (cases r)
    have l: "getstate_loop dumps np (item # items) state dels
               = getstate_loop dumps np items state' dels'"
      by (simp add: item Inr r)
    show ?thesis
    proof (cases "key = StrKey k")
      case True
      then have "StrKey k \<in> set dels'"
        using getstate_item_Inr(5) [OF Inr [unfolded r]] Cons.prems(2) by auto
      then show ?thesis
        unfolding l using getstate_loop_dels [of dels' dumps np items state'] by blast
    next
      case False
      then have "StrKey k \<in> fst ` set items"
        using Cons.prems(3) by (auto simp: item)
      then show ?thesis
        unfolding l using Cons.IH [of state' dels'] Cons.prems(1,2) l by simp
    qed
  qed
qed

lemma delete_keys_ok:
  "distinct ks \<Longrightarrow> set ks \<subseteq> fst ` set d \<Longrightarrow>
   fst (delete_keys ks d) = None \<and> fst ` set (snd (delete_keys ks d)) = fst ` set d - set ks"
proof (induction ks arbitrary: d)
  case Nil
  then show ?case by simp
next
  case (Cons k ks)
  let ?d' = "filter (\<lambda>(k', v). k' \<noteq> k) d"
  have k: "k \<in> fst ` set d" using Cons.prems(2) by simp
  have keys: "fst ` set ?d' = fst ` set d - {k}"
    by force
  have "set ks \<subseteq> fst ` set ?d'"
    using Cons.prems keys by auto
  then have "fst (delete_keys ks ?d') = None \<and>
             fst ` set (snd (delete_keys ks ?d')) = fst ` set ?d' - set ks"
    using Cons.IH [of ?d'] Cons.prems(1) by simp
  then show ?case
    unfolding keys using k by (auto simp: dict_del_def)
qed

lemma getstate_item_returns:
  "\<not> item_can_raise dumps np (key, val) \<Longrightarrow>
   \<exists>r. getstate_item dumps np key val state dels = Inr r"
  by (auto simp: item_can_raise_def getstate_item_def isl_def
      split: key.splits sum.splits bool.splits)

lemma getstate_loop_returns:
  "\<not> list_ex (item_can_raise dumps np) items \<Longrightarrow>
   fst (getstate_loop dumps np items state dels) = None"
proof (induction items arbitrary: state dels)
  case Nil
  then show ?case by simp
next
  case (Cons item items)
  obtain key val where item: "item = (key, val)" by (cases item)
  obtain r where r: "getstate_item dumps np key val state dels = Inr r"
    using getstate_item_returns [of dumps np key val state dels] Cons.prems by (auto simp: item)
  obtain state' dels' where "r = (state', dels')" by (cases r)
  then show ?case
    using r Cons.IH [of state' dels'] Cons.prems by (simp add: item)
qed

lemma getstate_result:
  obtains (raised) e state where
      "getstate dumps super np mro self h
         = (Inl e, (snd (super self h))\<lparr>dict_at := (dict_at (snd (super self h)))
                                           (fst (super self h) := state)\<rparr>)"
      "fst (getstate_loop dumps (allNotPickled np mro)
              (dict_at (snd (super self h)) (fst (super self h)))
              (dict_at (snd (super self h)) (fst (super self h))) []) = Some e"
  | (returned) state where
      "getstate dumps super np mro self h
         = (Inr (fst (super self h)),
            (snd (super self h))\<lparr>dict_at := (dict_at (snd (super self h)))
                                      (fst (super self h) := state)\<rparr>)"
      "fst (getstate_loop dumps (allNotPickled np mro)
              (dict_at (snd (super self h)) (fst (super self h)))
              (dict_at (snd (super self h)) (fst (super self h))) []) = None"
      "\<And>k. StrKey k \<in> allNotPickled np mro \<Longrightarrow>
            StrKey k \<in> fst ` set (dict_at (snd (super self h)) (fst (super self h))) \<Longrightarrow>
            StrKey k \<notin> fst ` set state"
proof -
  obtain st h1 where s: "super self h = (st, h1)"
    by (cases "super self h")
  let ?S0 = "dict_at h1 st"
  let ?np = "allNotPickled np mro"
  obtain err state dels where l: "getstate_loop dumps ?np ?S0 ?S0 [] = (err, state, dels)"
    by (cases "getstate_loop dumps ?np ?S0 ?S0 []")
  show ?thesis
  proof (cases err)
    case (Some e)
    show ?thesis
      by (rule raised [of e state]) (simp_all add: getstate_def s l Some)
  next
    case None
    have di: "distinct dels"
      using getstate_loop_dels [of "[]" dumps ?np ?S0 ?S0] l by simp
    have sub: "set dels \<subseteq> fst ` set state"
      using getstate_loop_dels [of "[]" dumps ?np ?S0 ?S0]
        getstate_loop_state_keys [of ?S0 dumps ?np ?S0 "[]"] l by auto
    note D = delete_keys_ok [OF di sub]
    obtain state' where d: "delete_keys dels state = (None, state')"
      using D by (cases "delete_keys dels state") auto
    have keys: "fst ` set state' = fst ` set state - set dels"
      using D d by simp
    have gone: "StrKey k \<notin> fst ` set state'"
      if "StrKey k \<in> ?np" and "StrKey k \<in> fst ` set ?S0" for k
      using getstate_loop_dels_notPickled [of dumps ?np ?S0 ?S0 "[]" k] that l None keys by simp
    show ?thesis
    proof (rule returned [of state'])
      show "getstate dumps super np mro self h
              = (Inr (fst (super self h)),
                 (snd (super self h))\<lparr>dict_at := (dict_at (snd (super self h)))
                                           (fst (super self h) := state')\<rparr>)"
        by (simp add: getstate_def s l None d)
      show "fst (getstate_loop dumps (allNotPickled np mro)
              (dict_at (snd (super self h)) (fst (super self h)))
              (dict_at (snd (super self h)) (fst (super self h))) []) = None"
        by (simp add: s l None)
      show "StrKey k \<notin> fst ` set state'"
        if "StrKey k \<in> allNotPickled np mro"
          and "StrKey k \<in> fst ` set (dict_at (snd (super self h)) (fst (super self h)))" for k
        using gone [of k] that by (simp add: s)
    qed
  qed
qed

text \<open>
  C3, amended. Let the inherited \<open>__getstate__\<close> return a dictionary of its own. Whenever
  \<open>__getstate__\<close> returns, it returns that dictionary, and no string key that the inherited
  state had and that is in \<open>notPickled\<close> of the instance's class or of a class of its MRO is
  left in it. Whether it returns or raises, the attribute dictionary of the instance is
  unchanged.
\<close>

theorem getstate_filters_notPickled:
  assumes "fst (super self h) \<noteq> self"
    and "dict_at (snd (super self h)) self = dict_at h self"
  shows "(\<forall>st. fst (getstate dumps super np mro self h) = Inr st \<longrightarrow>
            st = fst (super self h) \<and>
            (\<forall>k. (StrKey k \<in> np \<or> (\<exists>s. Some s \<in> set mro \<and> StrKey k \<in> s)) \<and>
                  StrKey k \<in> fst ` set (dict_at (snd (super self h)) (fst (super self h))) \<longrightarrow>
                  StrKey k \<notin> fst ` set (dict_at (snd (getstate dumps super np mro self h)) st))) \<and>
         dict_at (snd (getstate dumps super np mro self h)) self = dict_at h self"
proof (cases rule: getstate_result [of dumps super np mro self h])
  case (raised e state)
  show ?thesis
    unfolding raised(1) using assms by simp
next
  case (returned state)
  have "StrKey k \<in> allNotPickled np mro"
    if "StrKey k \<in> np \<or> (\<exists>s. Some s \<in> set mro \<and> StrKey k \<in> s)" for k
    using that unfolding allNotPickled_union by blast
  then show ?thesis
    unfolding returned(1) using assms returned(3) by simp
qed

text \<open>
  \<open>__getstate__\<close> returns when no item makes the body of the loop raise; the deletions at
  the end never raise.
\<close>

lemma getstate_returns:
  assumes "\<not> list_ex (item_can_raise dumps (allNotPickled np mro))
               (dict_at (snd (super self h)) (fst (super self h)))"
  shows "fst (getstate dumps super np mro self h) = Inr (fst (super self h))"
proof (cases rule: getstate_result [of dumps super np mro self h])
  case (raised e state)
  then show ?thesis
    using getstate_loop_returns [OF assms] by simp
next
  case (returned state)
  then show ?thesis by simp
qed

theorem getstate_filters_notPickled_witness:
  "fst (hashable_getstate 0 example_instance) \<noteq> 0 \<and>
   dict_at (snd (hashable_getstate 0 example_instance)) 0 = dict_at example_instance 0 \<and>
   fst (getstate example_dumps hashable_getstate {StrKey ''cache''}
          [Some {StrKey ''cache''}, Some {StrKey ''log''}, None] 0 example_instance) = Inr 1 \<and>
   StrKey ''log'' \<in> fst ` set (dict_at (snd (hashable_getstate 0 example_instance)) 1) \<and>
   StrKey ''log'' \<notin> fst ` set (dict_at
      (snd (getstate example_dumps hashable_getstate {StrKey ''cache''}
              [Some {StrKey ''cache''}, Some {StrKey ''log''}, None] 0 example_instance)) 1) \<and>
   dict_at (snd (getstate example_dumps hashable_getstate {StrKey ''cache''}
              [Some {StrKey ''cache''}, Some {StrKey ''log''}, None] 0 example_instance)) 0
     = dict_at example_instance 0 \<and>
   dict_at (snd (getstate example_dumps hashable_getstate {StrKey ''cache''}
              [Some {StrKey ''cache''}, Some {StrKey ''log''}, None] 0 example_instance)) 1
     = [(StrKey ''wavelength'', Instance [''float'', ''object''] 3),
        (StrKey ''instr'', HardwareReference ''Reference to a Keithley''),
        (StrKey ''fit_dilled'', Dilled (Function 7 False))]"
proof -
  let ?g = "getstate example_dumps hashable_getstate {StrKey ''cache''}
              [Some {StrKey ''cache''}, Some {StrKey ''log''}, None] 0 example_instance"
  have f: "fst (hashable_getstate 0 example_instance) \<noteq> 0"
    by (simp add: hashable_getstate_def example_instance_def)
  have u: "dict_at (snd (hashable_getstate 0 example_instance)) 0 = dict_at example_instance 0"
    by (simp add: hashable_getstate_def example_instance_def)
  have a: "fst (hashable_getstate 0 example_instance) = 1"
    by (simp add: hashable_getstate_def example_instance_def)
  have r: "fst ?g = Inr 1"
    "dict_at (snd ?g) 1
     = [(StrKey ''wavelength'', Instance [''float'', ''object''] 3),
        (StrKey ''instr'', HardwareReference ''Reference to a Keithley''),
        (StrKey ''fit_dilled'', Dilled (Function 7 False))]"
    by (simp_all add: getstate_def getstate_item_def hashable_getstate_def example_instance_def
        dunder_def dict_del_def is_VISAObject_def)
  have m: "Some {StrKey ''log''} \<in> set [Some {StrKey ''cache''}, Some {StrKey ''log''}, None]"
    "StrKey ''log'' \<in> {StrKey ''log''}"
    by simp_all
  have k: "StrKey ''log'' \<in> fst ` set (dict_at (snd (hashable_getstate 0 example_instance)) 1)"
    by (simp add: hashable_getstate_def example_instance_def dunder_def)
  note T = getstate_filters_notPickled [of hashable_getstate 0 example_instance example_dumps
      "{StrKey ''cache''}" "[Some {StrKey ''cache''}, Some {StrKey ''log''}, None]", OF f u]
  have "StrKey ''log'' \<notin> fst ` set (dict_at (snd ?g) 1)"
    using T r(1) m k unfolding a by blast
  then show ?thesis
    using f u r k T by simp
qed

text \<open>
  Keys that are not strings are passed over by the guard \<open>isinstance(key, str)\<close>: the key
  \<open>5\<close>, though in \<open>notPickled\<close>, is still in the returned state. And a key that the loop
  itself adds for a function, \<open>f_dilled\<close>, is in the returned state also when \<open>notPickled\<close>
  names it.
\<close>

theorem getstate_filters_notPickled_counterexample:
  "IntKey 5 \<in> allNotPickled {IntKey 5} [Some {IntKey 5}, None] \<and>
   fst (getstate example_dumps hashable_getstate {IntKey 5} [Some {IntKey 5}, None] 0
          \<lparr>dict_at = (\<lambda>a. if a = 0 then [(IntKey 5, PyNone)] else []), next_free = 1\<rparr>) = Inr 1 \<and>
   dict_at (snd (getstate example_dumps hashable_getstate {IntKey 5} [Some {IntKey 5}, None] 0
          \<lparr>dict_at = (\<lambda>a. if a = 0 then [(IntKey 5, PyNone)] else []), next_free = 1\<rparr>)) 1
     = [(IntKey 5, PyNone)] \<and>
   StrKey ''f_dilled'' \<in> allNotPickled {StrKey ''f_dilled''} [Some {StrKey ''f_dilled''}, None] \<and>
   dict_at (snd (getstate example_dumps hashable_getstate {StrKey ''f_dilled''}
                   [Some {StrKey ''f_dilled''}, None] 0
          \<lparr>dict_at = (\<lambda>a. if a = 0 then [(StrKey ''f'', Function 7 False)] else []),
            next_free = 1\<rparr>)) 1
     = [(StrKey ''f_dilled'', Dilled (Function 7 False))]"
  by (simp add: getstate_def getstate_item_def hashable_getstate_def dunder_def dict_del_def
      is_VISAObject_def)

text \<open>
  An attribute whose value is a class makes \<open>__getstate__\<close> raise \<open>TypeError\<close>.
\<close>

lemma getstate_raises_example:
  "fst (getstate example_dumps hashable_getstate {} [Some {}, None] 0
          \<lparr>dict_at = (\<lambda>a. if a = 0 then [(StrKey ''kind'', ClassValue ''Sweep'')] else []),
            next_free = 1\<rparr>) = Inl TypeError"
  by (simp add: getstate_def getstate_item_def hashable_getstate_def dunder_def is_VISAObject_def)

subsection \<open>Restoring\<close>

lemma map_of_filter_key:
  "map_of (filter (\<lambda>(k', v). k' \<noteq> k) d) = (map_of d)(k := None)"
  by (induction d) auto

lemma dict_del_Inr:
  "dict_del k d = Inr d' \<Longrightarrow> map_of d' = (map_of d)(k := None)"
  by (auto simp: dict_del_def map_of_filter_key split: if_splits)

lemma dilled_target_Some:
  "\<not> isHardwareReference val \<Longrightarrow> last_chars 7 k = ''_dilled'' \<Longrightarrow> dill_loads val = Inr f \<Longrightarrow>
   dilled_target (StrKey k) val = Some (StrKey (take (length k - 7) k), f)"
  by (simp add: dilled_target_def)

text \<open>One step of the loop, when it goes on.\<close>

lemma setstate_loop_step:
  assumes "setstate_loop ((key, val) # items) st = Inr st'"
  obtains (hw) "isHardwareReference val" "setstate_loop items (dict_set key PyNone st) = Inr st'"
  | (dilled) k f st1 where "\<not> isHardwareReference val" "key = StrKey k"
      "dilled_target key val = Some (StrKey (take (length k - 7) k), f)"
      "dict_del key (dict_set (StrKey (take (length k - 7) k)) f st) = Inr st1"
      "setstate_loop items st1 = Inr st'"
  | (other) "\<not> isHardwareReference val" "dilled_target key val = None"
      "setstate_loop items st = Inr st'"
proof (cases "isHardwareReference val")
  case True
  then show ?thesis using assms hw by simp
next
  case nh: False
  show ?thesis
  proof (cases key)
    case (IntKey i)
    then show ?thesis using assms nh by simp
  next
    case (StrKey k)
    show ?thesis
    proof (cases "last_chars 7 k = ''_dilled''")
      case False
      then show ?thesis
        using assms nh StrKey other by (simp add: dilled_target_def)
    next
      case True
      then obtain f where f: "dill_loads val = Inr f"
        using assms nh StrKey by (cases "dill_loads val") simp_all
      then obtain st1 where
        st1: "dict_del key (dict_set (StrKey (take (length k - 7) k)) f st) = Inr st1"
        using assms nh StrKey True
        by (cases "dict_del key (dict_set (StrKey (take (length k - 7) k)) f st)") simp_all
      have "setstate_loop items st1 = Inr st'"
        using assms nh StrKey True f st1 by simp
      then show ?thesis
        using dilled [OF nh StrKey _ st1] dilled_target_Some [OF nh True f] StrKey by simp
    qed
  qed
qed

lemma dilled_target_None [simp]: "dilled_target k PyNone = None"
  by (simp add: dilled_target_def split: key.splits)

lemma setattr_Inr: "setattr k v d = Inr d' \<Longrightarrow> d' = dict_set k v d"
  by (simp add: setattr_def split: key.splits)

lemma delattr_Inr: "delattr k d = Inr d' \<Longrightarrow> dict_del k d = Inr d'"
  by (simp add: delattr_def dict_del_def split: key.splits if_splits)

lemma fromJSON_loop_setstate_loop:
  "fromJSON_loop items d = Inr d' \<Longrightarrow> setstate_loop items d = Inr d'"
proof (induction items arbitrary: d)
  case Nil
  then show ?case by simp
next
  case (Cons item items)
  obtain key val where item: "item = (key, val)" by (cases item)
  show ?case
  proof (cases "isHardwareReference val")
    case True
    then obtain d1 where d1: "setattr key PyNone d = Inr d1" "fromJSON_loop items d1 = Inr d'"
      using Cons.prems by (cases "setattr key PyNone d") (simp_all add: item)
    then show ?thesis
      using True Cons.IH [OF d1(2)] setattr_Inr [OF d1(1)] by (simp add: item)
  next
    case nh: False
    show ?thesis
    proof (cases key)
      case (IntKey i)
      then show ?thesis using Cons.prems nh by (simp add: item)
    next
      case (StrKey k)
      show ?thesis
      proof (cases "last_chars 7 k = ''_dilled''")
        case False
        then show ?thesis
          using Cons.prems nh StrKey Cons.IH [of d] by (simp add: item)
      next
        case True
        obtain f where f: "dill_loads val = Inr f"
          using Cons.prems nh StrKey True by (cases "dill_loads val") (simp_all add: item)
        obtain d1 where d1: "setattr (StrKey (take (length k - 7) k)) f d = Inr d1"
          using Cons.prems nh StrKey True f
          by (cases "setattr (StrKey (take (length k - 7) k)) f d") (simp_all add: item)
        obtain d2 where d2: "delattr key d1 = Inr d2"
          using Cons.prems nh StrKey True f d1
          by (cases "delattr key d1") (simp_all add: item)
        have "fromJSON_loop items d2 = Inr d'"
          using Cons.prems nh StrKey True f d1 d2 by (simp add: item)
        then show ?thesis
          using nh StrKey True f setattr_Inr [OF d1] delattr_Inr [OF d2] Cons.IH [of d2]
          by (simp add: item)
      qed
    qed
  qed
qed

lemma map_of_set_none:
  "map_of (set_none as st) k = (if k \<in> set as then Some PyNone else map_of st k)"
  by (induction as arbitrary: st) auto

lemma setattr_none_Inr: "setattr_none as d = Inr d' \<Longrightarrow> d' = set_none as d"
proof (induction as arbitrary: d)
  case Nil
  then show ?case by simp
next
  case (Cons a as)
  then obtain d1 where d1: "setattr a PyNone d = Inr d1" "setattr_none as d1 = Inr d'"
    by (cases "setattr a PyNone d") simp_all
  then show ?case
    using Cons.IH [OF d1(2)] setattr_Inr [OF d1(1)] by simp
qed

lemma distinct_dict_set: "distinct (map fst d) \<Longrightarrow> distinct (map fst (dict_set k v d))"
  by (induction d) (auto simp: image_iff)

lemma distinct_set_none: "distinct (map fst d) \<Longrightarrow> distinct (map fst (set_none as d))"
  by (induction as arbitrary: d) (simp_all add: distinct_dict_set)

lemma set_dict_set: "(k', v') \<in> set (dict_set k v d) \<Longrightarrow> (k', v') \<in> set d \<or> (k', v') = (k, v)"
  by (induction d) (auto split: if_splits)

lemma set_set_none: "(k, v) \<in> set (set_none as d) \<Longrightarrow> (k, v) \<in> set d \<or> v = PyNone"
proof (induction as arbitrary: d)
  case Nil
  then show ?case by simp
next
  case (Cons a as)
  then have "(k, v) \<in> set (dict_set a PyNone d) \<or> v = PyNone"
    by simp
  then show ?case
    using set_dict_set [of k v a PyNone d] by auto
qed

lemma dilled_under_Cons:
  "dilled_under ((key, val) # items) k f
     \<longleftrightarrow> dilled_target key val = Some (k, f) \<or> dilled_under items k f"
  by (simp add: dilled_under_def)

lemma dilled_under_iff:
  "dilled_under items k f \<longleftrightarrow> (\<exists>(key, val) \<in> set items. dilled_target key val = Some (k, f))"
  by (simp add: dilled_under_def list_ex_iff)

text \<open>While the loop runs, the value under a name stays in a set that holds \<open>None\<close> and what
  the dilled entries still to come restore under that name.\<close>

lemma setstate_loop_value_in:
  "setstate_loop items st = Inr st' \<Longrightarrow> map_of st k0 = Some v0 \<Longrightarrow> v0 \<in> A \<Longrightarrow> PyNone \<in> A \<Longrightarrow>
   (\<forall>f. dilled_under items k0 f \<longrightarrow> f \<in> A) \<Longrightarrow>
   (\<forall>v. (k0, v) \<in> set items \<longrightarrow> v = PyNone \<or> isHardwareReference v) \<Longrightarrow>
   \<exists>v. map_of st' k0 = Some v \<and> v \<in> A"
proof (induction items arbitrary: st v0)
  case Nil
  then show ?case by simp
next
  case (Cons item items)
  obtain key val where item: "item = (key, val)" by (cases item)
  have rest: "\<forall>f. dilled_under items k0 f \<longrightarrow> f \<in> A"
    "\<forall>v. (k0, v) \<in> set items \<longrightarrow> v = PyNone \<or> isHardwareReference v"
    using Cons.prems(5,6) by (simp_all add: item dilled_under_Cons)
  from Cons.prems(1) [unfolded item] show ?case
  proof (cases rule: setstate_loop_step)
    case hw
    have "\<exists>v. map_of (dict_set key PyNone st) k0 = Some v \<and> v \<in> A"
      using Cons.prems(2,3,4) by simp
    then obtain v where "map_of (dict_set key PyNone st) k0 = Some v" "v \<in> A"
      by blast
    then show ?thesis
      using Cons.IH [OF hw(2) _ _ Cons.prems(4) rest] by blast
  next
    case (dilled k f st1)
    have key: "key \<noteq> k0"
    proof
      assume "key = k0"
      then have "val = PyNone \<or> isHardwareReference val"
        using Cons.prems(6) by (simp add: item)
      then show False
        using dilled(1,3) by auto
    qed
    have "\<exists>v. map_of st1 k0 = Some v \<and> v \<in> A"
    proof (cases "StrKey (take (length k - 7) k) = k0")
      case True
      then have "f \<in> A"
        using Cons.prems(5) dilled(3) by (simp add: item dilled_under_Cons)
      then show ?thesis
        using dict_del_Inr [OF dilled(4)] key True by simp
    next
      case False
      then show ?thesis
        using dict_del_Inr [OF dilled(4)] key Cons.prems(2,3) by simp
    qed
    then obtain v where "map_of st1 k0 = Some v" "v \<in> A"
      by blast
    then show ?thesis
      using Cons.IH [OF dilled(5) _ _ Cons.prems(4) rest] by blast
  next
    case other
    then show ?thesis
      using Cons.IH [OF other(3) Cons.prems(2,3,4) rest] by blast
  qed
qed

lemma setstate_loop_placeholder:
  "setstate_loop items st = Inr st' \<Longrightarrow> (k0, HardwareReference c) \<in> set items \<Longrightarrow>
   distinct (map fst items) \<Longrightarrow>
   map_of st' k0 = Some PyNone \<or> (\<exists>f. dilled_after items k0 f \<and> map_of st' k0 = Some f)"
proof (induction items arbitrary: st)
  case Nil
  then show ?case by simp
next
  case (Cons item items)
  obtain key val where item: "item = (key, val)" by (cases item)
  have d: "distinct (map fst items)" "key \<notin> fst ` set items"
    using Cons.prems(3) by (simp_all add: item)
  show ?case
  proof (cases "key = k0")
    case True
    then have v: "val = HardwareReference c"
      using Cons.prems(2) d(2) by (auto simp: item image_iff)
    have l: "setstate_loop items (dict_set k0 PyNone st) = Inr st'"
      using Cons.prems(1) True v by (simp add: item)
    let ?A = "insert PyNone {f. dilled_under items k0 f}"
    have nk: "\<forall>v. (k0, v) \<in> set items \<longrightarrow> v = PyNone \<or> isHardwareReference v"
      using d(2) True by (auto simp: image_iff)
    have "\<exists>v. map_of st' k0 = Some v \<and> v \<in> ?A"
    proof (rule setstate_loop_value_in [OF l, of k0 PyNone])
      show "map_of (dict_set k0 PyNone st) k0 = Some PyNone" by simp
      show "PyNone \<in> ?A" "PyNone \<in> ?A" by simp_all
      show "\<forall>f. dilled_under items k0 f \<longrightarrow> f \<in> ?A" by simp
      show "\<forall>v. (k0, v) \<in> set items \<longrightarrow> v = PyNone \<or> isHardwareReference v" by (rule nk)
    qed
    then show ?thesis
      using True by (auto simp: item)
  next
    case False
    then have m: "(k0, HardwareReference c) \<in> set items"
      using Cons.prems(2) by (simp add: item)
    have a: "dilled_after (item # items) k0 f = dilled_after items k0 f" for f
      using False by (simp add: item)
    from Cons.prems(1) [unfolded item] show ?thesis
    proof (cases rule: setstate_loop_step)
      case hw
      then show ?thesis unfolding a using Cons.IH [OF hw(2) m d(1)] by simp
    next
      case (dilled k f st1)
      then show ?thesis unfolding a using Cons.IH [OF dilled(5) m d(1)] by simp
    next
      case other
      then show ?thesis unfolding a using Cons.IH [OF other(3) m d(1)] by simp
    qed
  qed
qed

lemma setstate_loop_hw_origin:
  "setstate_loop items st = Inr st' \<Longrightarrow> (\<forall>k f. dilled_under items k f \<longrightarrow> G k f) \<Longrightarrow>
   (\<forall>k v. map_of st k = Some v \<longrightarrow> isHardwareReference v \<longrightarrow> (k, v) \<in> set items \<or> G k v) \<Longrightarrow>
   map_of st' k0 = Some v0 \<Longrightarrow> isHardwareReference v0 \<Longrightarrow> G k0 v0"
proof (induction items arbitrary: st)
  case Nil
  then show ?case by auto
next
  case (Cons item items)
  obtain key val where item: "item = (key, val)" by (cases item)
  have rest: "\<forall>k f. dilled_under items k f \<longrightarrow> G k f"
    using Cons.prems(2) by (simp add: item dilled_under_Cons)
  note inv = Cons.prems(3) [unfolded item]
  from Cons.prems(1) [unfolded item] show ?case
  proof (cases rule: setstate_loop_step)
    case hw
    have "\<forall>k v. map_of (dict_set key PyNone st) k = Some v \<longrightarrow> isHardwareReference v
            \<longrightarrow> (k, v) \<in> set items \<or> G k v"
      using inv by (auto split: if_splits)
    then show ?thesis
      using Cons.IH [OF hw(2) rest _ Cons.prems(4,5)] by simp
  next
    case (dilled k f st1)
    have f: "G (StrKey (take (length k - 7) k)) f"
      using Cons.prems(2) dilled(3) by (simp add: item dilled_under_Cons)
    have "\<forall>k v. map_of st1 k = Some v \<longrightarrow> isHardwareReference v \<longrightarrow> (k, v) \<in> set items \<or> G k v"
      using inv f dilled(1) by (auto simp: dict_del_Inr [OF dilled(4)] split: if_splits)
    then show ?thesis
      using Cons.IH [OF dilled(5) rest _ Cons.prems(4,5)] by simp
  next
    case other
    have "\<forall>k v. map_of st k = Some v \<longrightarrow> isHardwareReference v \<longrightarrow> (k, v) \<in> set items \<or> G k v"
      using inv other(1) by auto
    then show ?thesis
      using Cons.IH [OF other(3) rest _ Cons.prems(4,5)] by simp
  qed
qed

lemma dilled_under_dict_set_None:
  "dilled_under (dict_set a PyNone d) k f \<Longrightarrow> dilled_under d k f"
  using set_dict_set [of _ _ a PyNone d]
  by (fastforce simp: dilled_under_iff)

lemma dilled_under_set_none: "dilled_under (set_none as d) k f \<Longrightarrow> dilled_under d k f"
  by (induction as arbitrary: d) (auto dest: dilled_under_dict_set_None)

lemma dilled_after_dict_set_None:
  "dilled_after (dict_set a PyNone d) k f \<Longrightarrow> dilled_after d k f"
proof (induction d)
  case Nil
  then show ?case by (simp add: dilled_under_def split: if_splits)
next
  case (Cons item d)
  obtain k' v' where item: "item = (k', v')" by (cases item)
  show ?case
  proof (cases "k' = a")
    case True
    then show ?thesis using Cons.prems by (simp add: item)
  next
    case False
    show ?thesis
    proof (cases "k' = k")
      case True
      then have "dilled_under (dict_set a PyNone d) k f"
        using Cons.prems False by (simp add: item)
      then show ?thesis
        using True dilled_under_dict_set_None by (simp add: item)
    next
      case nk: False
      then show ?thesis
        using Cons.prems Cons.IH False by (simp add: item)
    qed
  qed
qed

lemma dilled_after_set_none: "dilled_after (set_none as d) k f \<Longrightarrow> dilled_after d k f"
  by (induction as arbitrary: d) (auto dest: dilled_after_dict_set_None)

lemma setstate_restored:
  assumes "distinct (map fst state)"
    and "\<And>st. map_of (super st) = map_of st"
    and "setstate super np state = Inr d'"
  shows "\<forall>a \<in> set np. map_of d' a = Some PyNone"
    and "\<forall>k c. map_of state k = Some (HardwareReference c) \<longrightarrow>
           map_of d' k = Some PyNone \<or> (\<exists>f. dilled_after state k f \<and> map_of d' k = Some f)"
    and "\<forall>k v. map_of d' k = Some v \<and> isHardwareReference v \<longrightarrow> dilled_under state k v"
proof -
  obtain st1 where l: "setstate_loop state state = Inr st1"
    and d': "d' = super (set_none np st1)"
    using assms(3) by (cases "setstate_loop state state") (simp_all add: setstate_def)
  have m: "map_of d' k = (if k \<in> set np then Some PyNone else map_of st1 k)" for k
    unfolding d' assms(2) by (rule map_of_set_none)
  show "\<forall>a \<in> set np. map_of d' a = Some PyNone"
    by (simp add: m)
  show "\<forall>k c. map_of state k = Some (HardwareReference c) \<longrightarrow>
           map_of d' k = Some PyNone \<or> (\<exists>f. dilled_after state k f \<and> map_of d' k = Some f)"
  proof (intro allI impI)
    fix k c
    assume "map_of state k = Some (HardwareReference c)"
    then have i: "(k, HardwareReference c) \<in> set state"
      by (rule map_of_SomeD)
    show "map_of d' k = Some PyNone \<or> (\<exists>f. dilled_after state k f \<and> map_of d' k = Some f)"
      using setstate_loop_placeholder [OF l i assms(1)] by (auto simp: m)
  qed
  show "\<forall>k v. map_of d' k = Some v \<and> isHardwareReference v \<longrightarrow> dilled_under state k v"
  proof (intro allI impI)
    fix k v
    assume a: "map_of d' k = Some v \<and> isHardwareReference v"
    then have "k \<notin> set np"
      by (auto simp: m)
    then have s: "map_of st1 k = Some v"
      using a by (simp add: m)
    have 2: "\<forall>k v. map_of state k = Some v \<longrightarrow> isHardwareReference v
               \<longrightarrow> (k, v) \<in> set state \<or> dilled_under state k v"
      by (auto dest: map_of_SomeD)
    show "dilled_under state k v"
      using setstate_loop_hw_origin [OF l _ 2 s] a by simp
  qed
qed

lemma fromJSONcheck_restored:
  assumes "distinct (map fst (attrs obj))"
    and "restore js = Inr obj"
    and "fromJSONcheck restore cn np js = Inr obj'"
  shows "\<forall>a \<in> set np. (\<forall>f. \<not> dilled_under (attrs obj) a f) \<longrightarrow> map_of (attrs obj') a = Some PyNone"
    and "\<forall>k c. map_of (attrs obj) k = Some (HardwareReference c) \<and> k \<notin> set np \<longrightarrow>
           map_of (attrs obj') k = Some PyNone \<or>
           (\<exists>f. dilled_after (attrs obj) k f \<and> map_of (attrs obj') k = Some f)"
    and "\<forall>k v. map_of (attrs obj') k = Some v \<and> isHardwareReference v
           \<longrightarrow> dilled_under (attrs obj) k v"
proof -
  let ?state = "attrs obj"
  obtain d1 where d1: "setattr_none np ?state = Inr d1"
    using assms(2,3)
    by (cases "setattr_none np ?state") (simp_all add: fromJSONcheck_def split: if_splits)
  obtain d2 where d2: "fromJSON_loop d1 d1 = Inr d2"
    using assms(2,3) d1
    by (cases "fromJSON_loop d1 d1") (simp_all add: fromJSONcheck_def split: if_splits)
  have o: "attrs obj' = d2"
    using assms(2,3) d1 d2 by (auto simp: fromJSONcheck_def split: if_splits)
  have e: "d1 = set_none np ?state"
    using d1 by (rule setattr_none_Inr)
  have l: "setstate_loop d1 d1 = Inr d2"
    using d2 by (rule fromJSON_loop_setstate_loop)
  have dd: "distinct (map fst d1)"
    unfolding e using assms(1) by (rule distinct_set_none)
  have m1: "map_of d1 k = (if k \<in> set np then Some PyNone else map_of ?state k)" for k
    unfolding e by (rule map_of_set_none)
  have du: "dilled_under ?state k f" if "dilled_under d1 k f" for k f
    using that unfolding e by (rule dilled_under_set_none)
  have da: "dilled_after ?state k f" if "dilled_after d1 k f" for k f
    using that unfolding e by (rule dilled_after_set_none)
  show "\<forall>a \<in> set np. (\<forall>f. \<not> dilled_under ?state a f) \<longrightarrow> map_of (attrs obj') a = Some PyNone"
  proof (intro ballI impI)
    fix a
    assume a: "a \<in> set np" and n: "\<forall>f. \<not> dilled_under ?state a f"
    have 1: "map_of d1 a = Some PyNone" using a by (simp add: m1)
    have 2: "\<forall>v. (a, v) \<in> set d1 \<longrightarrow> v = PyNone \<or> isHardwareReference v"
      using dd 1 by (metis map_of_is_SomeI option.inject)
    have 3: "\<forall>f. dilled_under d1 a f \<longrightarrow> f \<in> {PyNone}"
      using n du by blast
    have "\<exists>v. map_of d2 a = Some v \<and> v \<in> {PyNone}"
      by (rule setstate_loop_value_in [OF l 1 _ _ 3 2]) simp_all
    then show "map_of (attrs obj') a = Some PyNone"
      by (simp add: o)
  qed
  show "\<forall>k c. map_of ?state k = Some (HardwareReference c) \<and> k \<notin> set np \<longrightarrow>
           map_of (attrs obj') k = Some PyNone \<or>
           (\<exists>f. dilled_after ?state k f \<and> map_of (attrs obj') k = Some f)"
  proof (intro allI impI)
    fix k c
    assume a: "map_of ?state k = Some (HardwareReference c) \<and> k \<notin> set np"
    then have "map_of d1 k = Some (HardwareReference c)"
      by (simp add: m1)
    then have i: "(k, HardwareReference c) \<in> set d1"
      by (rule map_of_SomeD)
    show "map_of (attrs obj') k = Some PyNone \<or>
           (\<exists>f. dilled_after ?state k f \<and> map_of (attrs obj') k = Some f)"
      using setstate_loop_placeholder [OF l i dd] da unfolding o by blast
  qed
  show "\<forall>k v. map_of (attrs obj') k = Some v \<and> isHardwareReference v \<longrightarrow> dilled_under ?state k v"
  proof (intro allI impI)
    fix k v
    assume a: "map_of (attrs obj') k = Some v \<and> isHardwareReference v"
    have 1: "\<forall>k f. dilled_under d1 k f \<longrightarrow> dilled_under ?state k f"
      using du by blast
    have 2: "\<forall>k v. map_of d1 k = Some v \<longrightarrow> isHardwareReference v
               \<longrightarrow> (k, v) \<in> set d1 \<or> dilled_under ?state k v"
      by (auto dest: map_of_SomeD)
    have s: "map_of d2 k = Some v"
      using a by (simp add: o)
    show "dilled_under ?state k v"
      using setstate_loop_hw_origin [OF l _ 2 s] 1 a by simp
  qed
qed

text \<open>
  C10, amended. Through \<open>__setstate__\<close> (the inherited \<open>__setstate__\<close> installing the entries
  it is given) every name of \<open>notPickled\<close> is an attribute with the value \<open>None\<close>; through
  \<open>_fromJSONcheck\<close> so is every such name under which no stored entry \<open>name + '_dilled'\<close>
  is restored. On both paths an attribute stored as a \<open>HardwareReference\<close> (through
  \<open>_fromJSONcheck\<close>: one not named in \<open>notPickled\<close>) is \<open>None\<close>, unless an entry
  \<open>name + '_dilled'\<close> that comes after it in the stored state put its loaded value there;
  and an attribute holds a \<open>HardwareReference\<close> only when \<open>dill.loads\<close> gave that value for
  the stored entry \<open>name + '_dilled'\<close>.
\<close>

theorem restore_clears_hardware:
  assumes "distinct (map fst state)"
  shows "((\<forall>st. map_of (super st) = map_of st) \<and> setstate super np state = Inr d' \<longrightarrow>
            (\<forall>a \<in> set np. map_of d' a = Some PyNone) \<and>
            (\<forall>k c. map_of state k = Some (HardwareReference c) \<longrightarrow>
               map_of d' k = Some PyNone \<or>
               (\<exists>f. dilled_after state k f \<and> map_of d' k = Some f)) \<and>
            (\<forall>k v. map_of d' k = Some v \<and> isHardwareReference v \<longrightarrow> dilled_under state k v)) \<and>
         (restore js = Inr obj \<and> attrs obj = state \<and> fromJSONcheck restore cn np js = Inr obj' \<longrightarrow>
            (\<forall>a \<in> set np. (\<forall>f. \<not> dilled_under state a f) \<longrightarrow>
               map_of (attrs obj') a = Some PyNone) \<and>
            (\<forall>k c. map_of state k = Some (HardwareReference c) \<and> k \<notin> set np \<longrightarrow>
               map_of (attrs obj') k = Some PyNone \<or>
               (\<exists>f. dilled_after state k f \<and> map_of (attrs obj') k = Some f)) \<and>
            (\<forall>k v. map_of (attrs obj') k = Some v \<and> isHardwareReference v \<longrightarrow>
               dilled_under state k v))"
proof (intro conjI impI)
  assume a: "(\<forall>st. map_of (super st) = map_of st) \<and> setstate super np state = Inr d'"
  then have s: "\<And>st. map_of (super st) = map_of st" and r: "setstate super np state = Inr d'"
    by simp_all
  note A = setstate_restored [OF assms s r]
  show "\<forall>a \<in> set np. map_of d' a = Some PyNone"
    by (rule A(1))
  show "\<forall>k c. map_of state k = Some (HardwareReference c) \<longrightarrow>
          map_of d' k = Some PyNone \<or> (\<exists>f. dilled_after state k f \<and> map_of d' k = Some f)"
    by (rule A(2))
  show "\<forall>k v. map_of d' k = Some v \<and> isHardwareReference v \<longrightarrow> dilled_under state k v"
    by (rule A(3))
next
  assume b: "restore js = Inr obj \<and> attrs obj = state \<and> fromJSONcheck restore cn np js = Inr obj'"
  then have d: "distinct (map fst (attrs obj))" and r: "restore js = Inr obj"
    and f: "fromJSONcheck restore cn np js = Inr obj'" and e: "attrs obj = state"
    using assms by simp_all
  note B = fromJSONcheck_restored [OF d r f, unfolded e]
  show "\<forall>a \<in> set np. (\<forall>f. \<not> dilled_under state a f) \<longrightarrow> map_of (attrs obj') a = Some PyNone"
    by (rule B(1))
  show "\<forall>k c. map_of state k = Some (HardwareReference c) \<and> k \<notin> set np \<longrightarrow>
          map_of (attrs obj') k = Some PyNone \<or>
          (\<exists>f. dilled_after state k f \<and> map_of (attrs obj') k = Some f)"
    by (rule B(2))
  show "\<forall>k v. map_of (attrs obj') k = Some v \<and> isHardwareReference v \<longrightarrow> dilled_under state k v"
    by (rule B(3))
qed

lemma example_setstate:
  "setstate (\<lambda>st. st) [StrKey ''cache''] example_state =
     Inr [(StrKey ''instr'', PyNone),
          (StrKey ''wavelength'', Instance [''float'', ''object''] 3),
          (StrKey ''fit'', Function 7 False),
          (StrKey ''cache'', PyNone)]"
  by (simp add: setstate_def example_state_def last_chars_def dict_del_def)

lemma example_fromJSONcheck:
  "fromJSONcheck (\<lambda>js. Inr \<lparr>type_name = ''Sweep'', isinstance_cls = True, attrs = example_state\<rparr>)
       ''Sweep'' [StrKey ''cache''] ''{}'' =
     Inr \<lparr>type_name = ''Sweep'', isinstance_cls = True,
          attrs = [(StrKey ''instr'', PyNone),
                   (StrKey ''wavelength'', Instance [''float'', ''object''] 3),
                   (StrKey ''cache'', PyNone),
                   (StrKey ''fit'', Function 7 False)]\<rparr>"
  by (simp add: fromJSONcheck_def example_state_def last_chars_def setattr_def delattr_def)

lemma example_dilled:
  "\<not> dilled_after example_state (StrKey ''instr'') f"
  "\<not> dilled_under example_state (StrKey ''cache'') f"
  by (simp_all add: example_state_def dilled_under_def dilled_target_def last_chars_def)

theorem restore_clears_hardware_witness:
  "distinct (map fst example_state) \<and>
   setstate (\<lambda>st. st) [StrKey ''cache''] example_state =
     Inr [(StrKey ''instr'', PyNone),
          (StrKey ''wavelength'', Instance [''float'', ''object''] 3),
          (StrKey ''fit'', Function 7 False),
          (StrKey ''cache'', PyNone)] \<and>
   map_of example_state (StrKey ''instr'') = Some (HardwareReference ''Reference to a Keithley'') \<and>
   map_of [(StrKey ''instr'', PyNone),
           (StrKey ''wavelength'', Instance [''float'', ''object''] 3),
           (StrKey ''fit'', Function 7 False),
           (StrKey ''cache'', PyNone)] (StrKey ''instr'') = Some PyNone \<and>
   fromJSONcheck (\<lambda>js. Inr \<lparr>type_name = ''Sweep'', isinstance_cls = True, attrs = example_state\<rparr>)
       ''Sweep'' [StrKey ''cache''] ''{}'' =
     Inr \<lparr>type_name = ''Sweep'', isinstance_cls = True,
          attrs = [(StrKey ''instr'', PyNone),
                   (StrKey ''wavelength'', Instance [''float'', ''object''] 3),
                   (StrKey ''cache'', PyNone),
                   (StrKey ''fit'', Function 7 False)]\<rparr> \<and>
   map_of [(StrKey ''instr'', PyNone),
           (StrKey ''wavelength'', Instance [''float'', ''object''] 3),
           (StrKey ''cache'', PyNone),
           (StrKey ''fit'', Function 7 False)] (StrKey ''cache'') = Some PyNone"
proof -
  have d: "distinct (map fst example_state)"
    by (simp add: example_state_def)
  have i: "map_of example_state (StrKey ''instr'')
             = Some (HardwareReference ''Reference to a Keithley'')"
    by (simp add: example_state_def)
  let ?obj = "\<lparr>type_name = ''Sweep'', isinstance_cls = True, attrs = example_state\<rparr>"
  let ?dA = "[(StrKey ''instr'', PyNone),
          (StrKey ''wavelength'', Instance [''float'', ''object''] 3),
          (StrKey ''fit'', Function 7 False),
          (StrKey ''cache'', PyNone)]"
  let ?dB = "[(StrKey ''instr'', PyNone),
                   (StrKey ''wavelength'', Instance [''float'', ''object''] 3),
                   (StrKey ''cache'', PyNone),
                   (StrKey ''fit'', Function 7 False)]"
  note T = restore_clears_hardware [OF d, of "\<lambda>st. st" "[StrKey ''cache'']" ?dA
      "\<lambda>js. Inr ?obj" "''{}''" ?obj "''Sweep''"
      "\<lparr>type_name = ''Sweep'', isinstance_cls = True, attrs = ?dB\<rparr>"]
  have A: "map_of ?dA (StrKey ''instr'') = Some PyNone \<or>
           (\<exists>f. dilled_after example_state (StrKey ''instr'') f \<and>
                map_of ?dA (StrKey ''instr'') = Some f)"
    using T i example_setstate by blast
  have B: "map_of ?dB (StrKey ''cache'') = Some PyNone"
    using T example_fromJSONcheck example_dilled(2) by simp
  show ?thesis
    using d i A B example_dilled(1) example_setstate example_fromJSONcheck by blast
qed

text \<open>
  A dilled \<open>HardwareReference\<close> is restored as it is, and an entry \<open>a_dilled\<close> visited after
  the placeholder \<open>a\<close> overwrites the \<open>None\<close> put there.
\<close>

theorem restore_clears_hardware_counterexample:
  "setstate (\<lambda>st. st) [] [(StrKey ''f_dilled'', Dilled (HardwareReference ''x''))]
     = Inr [(StrKey ''f'', HardwareReference ''x'')] \<and>
   setstate (\<lambda>st. st) []
       [(StrKey ''a'', HardwareReference ''x''), (StrKey ''a_dilled'', Dilled (Function 1 False))]
     = Inr [(StrKey ''a'', Function 1 False)]"
  by (simp add: setstate_def last_chars_def dict_del_def)

end
